theory Spec2Isabelle
  imports Main "HOL-Library.AList" "HOL-Library.Sublist"
begin

section \<open>JavaScript values\<close>

text \<open>
  Records of the store and of an export are plain JSON objects. A value is one of the JSON
  shapes, or \<open>undefined\<close> (what reading an absent property gives). An object is the list of
  its properties in insertion order; property names of an object are pairwise distinct.
  Numbers are the integers (the fields the code below inspects are strings and flags).
\<close>

datatype jsval =
    JUndefined
  | JNull
  | JBool bool
  | JNum int
  | JStr string
  | JArr "jsval list"
  | JObj "(string \<times> jsval) list"

type_synonym jsobj = "(string \<times> jsval) list"

text \<open>\<open>!!v\<close>: the values that count as true in a condition.\<close>

fun truthy :: "jsval \<Rightarrow> bool" where
  "truthy JUndefined = False"
| "truthy JNull = False"
| "truthy (JBool b) = b"
| "truthy (JNum n) = (n \<noteq> 0)"
| "truthy (JStr s) = (s \<noteq> [])"
| "truthy (JArr _) = True"
| "truthy (JObj _) = True"

text \<open>
  \<open>a === b\<close>. Primitives are compared by type and value. Arrays and objects are compared by
  reference; two values that were parsed or persisted separately are never the same reference,
  so the comparison is false for them. The theorems about keys below assume a primitive key.
\<close>

fun strict_eq :: "jsval \<Rightarrow> jsval \<Rightarrow> bool" where
  "strict_eq JUndefined JUndefined = True"
| "strict_eq JNull JNull = True"
| "strict_eq (JBool a) (JBool b) = (a = b)"
| "strict_eq (JNum a) (JNum b) = (a = b)"
| "strict_eq (JStr a) (JStr b) = (a = b)"
| "strict_eq _ _ = False"

fun primitive :: "jsval \<Rightarrow> bool" where
  "primitive (JArr _) = False"
| "primitive (JObj _) = False"
| "primitive _ = True"

text \<open>\<open>obj.k\<close> on an object: the property's value, \<open>undefined\<close> when absent.\<close>

definition get :: "jsobj \<Rightarrow> string \<Rightarrow> jsval" where
  "get obj k = (case map_of obj k of None \<Rightarrow> JUndefined | Some v \<Rightarrow> v)"

text \<open>
  \<open>{...a, ...b}\<close>: the properties of \<open>a\<close>, then each property of \<open>b\<close> written over them in
  order: an existing name keeps its place and takes the new value, a new name is appended.
\<close>

definition spread :: "jsobj \<Rightarrow> jsobj \<Rightarrow> jsobj" where
  "spread a b = fold (\<lambda>(k, v). AList.update k v) b a"

section \<open>BaseRepository\<close>

text \<open>
  A collection is the array \<open>db.data[collection]\<close>. Every operation takes the array and returns
  the array after it, with the operation's own result. \<open>db.write()\<close> persists the array as it
  is and does not change it.
\<close>

type_synonym collection = "jsobj list"

fun findIndex :: "('a \<Rightarrow> bool) \<Rightarrow> 'a list \<Rightarrow> nat option" where
  "findIndex P [] = None"
| "findIndex P (x # xs) =
     (if P x then Some 0 else map_option Suc (findIndex P xs))"

definition has_uuid :: "jsval \<Rightarrow> jsobj \<Rightarrow> bool" where
  "has_uuid u item = strict_eq (get item ''uuid'') u"

definition findAll :: "collection \<Rightarrow> collection" where
  "findAll s = s"

definition findByUuid :: "collection \<Rightarrow> jsval \<Rightarrow> jsobj option" where
  "findByUuid s u = List.find (has_uuid u) s"

definition count_items :: "collection \<Rightarrow> nat" where
  "count_items s = length s"

definition insert_item :: "collection \<Rightarrow> jsobj \<Rightarrow> collection \<times> jsobj" where
  "insert_item s item = (s @ [item], item)"

definition update_item :: "collection \<Rightarrow> jsval \<Rightarrow> jsobj \<Rightarrow> collection \<times> jsobj option" where
  "update_item s u updates =
     (case findIndex (has_uuid u) s of
        None \<Rightarrow> (s, None)
      | Some index \<Rightarrow>
          (let updatedItem = spread (s ! index) updates
           in (s[index := updatedItem], Some updatedItem)))"

definition delete_item :: "collection \<Rightarrow> jsval \<Rightarrow> collection \<times> bool" where
  "delete_item s u =
     (case findIndex (has_uuid u) s of
        None \<Rightarrow> (s, False)
      | Some index \<Rightarrow> (take index s @ drop (Suc index) s, True))"

definition exists_item :: "collection \<Rightarrow> jsval \<Rightarrow> bool" where
  "exists_item s u = list_ex (has_uuid u) s"

definition upsert :: "collection \<Rightarrow> jsobj \<Rightarrow> collection \<times> jsobj option" where
  "upsert s item =
     (if exists_item s (get item ''uuid'')
      then update_item s (get item ''uuid'') item
      else (case insert_item s item of (s', r) \<Rightarrow> (s', Some r)))"

text \<open>The \<open>uuid\<close> values of a collection, in order.\<close>

definition uuids :: "collection \<Rightarrow> jsval list" where
  "uuids s = map (\<lambda>item. get item ''uuid'') s"

section \<open>Errors\<close>

text \<open>An exception is a value: the kind of error and its message.\<close>

datatype error =
    Error string
  | TypeError string
  | RangeError string

fun message :: "error \<Rightarrow> string" where
  "message (Error m) = m"
| "message (TypeError m) = m"
| "message (RangeError m) = m"

section \<open>AppController.storeData\<close>

text \<open>
  The body of the loop over the incoming conversations, with its two counters. An element of
  the batch is any JSON value; only an object can carry a \<open>uuid\<close> property, every other value
  is falsy or reads \<open>undefined\<close> for it and is skipped as invalid.
\<close>

record store_state =
  db_conversations :: collection
  processedCount :: nat
  skippedCount :: nat

definition shouldProcess :: "bool \<Rightarrow> jsobj option \<Rightarrow> jsobj \<Rightarrow> bool" where
  "shouldProcess force existingConversation conversation =
     (force \<or>
      (case existingConversation of
         None \<Rightarrow> True
       | Some e \<Rightarrow>
           \<not> truthy (get e ''processed'')
           \<or> \<not> strict_eq (get e ''updated_at'') (get conversation ''updated_at'')))"

definition storeConversation :: "bool \<Rightarrow> store_state \<Rightarrow> jsval \<Rightarrow> store_state" where
  "storeConversation force st conversation =
     (case conversation of
        JObj c \<Rightarrow>
          if \<not> truthy (get c ''uuid'')
          then st\<lparr>skippedCount := Suc (skippedCount st)\<rparr>
          else
            let existingConversation = findByUuid (db_conversations st) (get c ''uuid'')
            in if \<not> shouldProcess force existingConversation c
               then st\<lparr>skippedCount := Suc (skippedCount st)\<rparr>
               else st\<lparr>db_conversations := fst (upsert (db_conversations st) c),
                       processedCount := Suc (processedCount st)\<rparr>
      | _ \<Rightarrow> st\<lparr>skippedCount := Suc (skippedCount st)\<rparr>)"

text \<open>
  \<open>[...conversations].sort((a, b) => new Date(b.updated_at || 0) - new Date(a.updated_at || 0))\<close>.
  The comparator reads \<open>updated_at\<close> of both its arguments, and reading a property of \<open>null\<close>
  or \<open>undefined\<close> throws; a batch of two or more elements has each of them compared at least
  once, a shorter batch has none compared. When nothing throws, the result is the batch in the
  order \<open>newest_first\<close> gives: the order of the engine's sort under this comparator, which
  depends on how \<open>Date\<close> reads each \<open>updated_at\<close>.
\<close>

definition sortConversations ::
  "(jsval list \<Rightarrow> jsval list) \<Rightarrow> jsval list \<Rightarrow> error + jsval list" where
  "sortConversations newest_first conversations =
     (if 2 \<le> length conversations \<and> list_ex (\<lambda>c. c = JNull \<or> c = JUndefined) conversations
      then Inl (TypeError ''Cannot read properties of null (reading updated_at)'')
      else Inr (newest_first conversations))"

text \<open>
  The part of \<open>storeData\<close> that stores the conversations, after the users and the projects:
  the sort, then the loop over the sorted batch. An exception of the sort leaves \<open>storeData\<close>
  before anything of the batch is stored.
\<close>

definition storeConversations ::
  "(jsval list \<Rightarrow> jsval list) \<Rightarrow> bool \<Rightarrow> collection \<Rightarrow> jsval list \<Rightarrow> error + store_state" where
  "storeConversations newest_first force s conversations =
     (case sortConversations newest_first conversations of
        Inl e \<Rightarrow> Inl e
      | Inr sortedConversations \<Rightarrow>
          Inr (fold (\<lambda>conversation st. storeConversation force st conversation)
                 sortedConversations
                 \<lparr>db_conversations = s, processedCount = 0, skippedCount = 0\<rparr>))"

text \<open>
  The decision rule in the words of the specification, for a conversation \<open>c\<close> and the stored
  record \<open>e\<close> with its \<open>uuid\<close> (absent if new): process when forced, when \<open>e\<close> is absent, when
  the \<open>processed\<close> of \<open>e\<close> is not \<open>true\<close>, or when the two \<open>updated_at\<close> differ; skip otherwise.
\<close>

definition spec_process :: "bool \<Rightarrow> jsobj option \<Rightarrow> jsobj \<Rightarrow> bool" where
  "spec_process force e c =
     (force \<or>
      (case e of
         None \<Rightarrow> True
       | Some e' \<Rightarrow>
           get e' ''processed'' \<noteq> JBool True
           \<or> get e' ''updated_at'' \<noteq> get c ''updated_at''))"

section \<open>Strings\<close>

text \<open>
  A string is the list of its code units, and the code units modelled are those below 256.
  The functions below test code units against fixed ASCII classes, so a code unit outside a
  class is treated as any other.
\<close>

definition newline :: char where
  "newline = CHR 0x0A"

definition backtick :: char where
  "backtick = CHR 0x60"

definition hyphen :: char where
  "hyphen = CHR 0x2D"

text \<open>The white space and line terminators that \<open>trim()\<close> removes.\<close>

definition is_space :: "char \<Rightarrow> bool" where
  "is_space c = (c \<in> set [CHR 0x09, CHR 0x0A, CHR 0x0B, CHR 0x0C, CHR 0x0D, CHR 0x20, CHR 0xA0])"

definition trim :: "string \<Rightarrow> string" where
  "trim s = rev (dropWhile is_space (rev (dropWhile is_space s)))"

definition code_unit :: "char \<Rightarrow> nat" where
  "code_unit c = of_char c"

text \<open>\<open>[a-z0-9]\<close> and \<open>\w\<close>, that is \<open>[A-Za-z0-9_]\<close>.\<close>

definition is_lower_alnum :: "char \<Rightarrow> bool" where
  "is_lower_alnum c =
     (97 \<le> code_unit c \<and> code_unit c \<le> 122 \<or> 48 \<le> code_unit c \<and> code_unit c \<le> 57)"

definition is_word :: "char \<Rightarrow> bool" where
  "is_word c =
     (65 \<le> code_unit c \<and> code_unit c \<le> 90 \<or> is_lower_alnum c \<or> code_unit c = 95)"

text \<open>
  \<open>toLowerCase()\<close> on one code unit: the ASCII capitals and the Latin-1 capitals
  (\<open>0xC0\<close> to \<open>0xDE\<close> without the multiplication sign) move up by 32.
\<close>

definition lower_char :: "char \<Rightarrow> char" where
  "lower_char c =
     (if 65 \<le> code_unit c \<and> code_unit c \<le> 90
         \<or> 192 \<le> code_unit c \<and> code_unit c \<le> 222 \<and> code_unit c \<noteq> 215
      then char_of (code_unit c + 32) else c)"

definition toLowerCase :: "string \<Rightarrow> string" where
  "toLowerCase s = map lower_char s"

text \<open>\<open>s.includes(needle)\<close>.\<close>

definition includes_str :: "string \<Rightarrow> string \<Rightarrow> bool" where
  "includes_str s needle = sublist needle s"

text \<open>\<open>s.replace(c, d)\<close> with a one-character pattern: the first occurrence only.\<close>

fun replace_first :: "char \<Rightarrow> char \<Rightarrow> string \<Rightarrow> string" where
  "replace_first c d [] = []"
| "replace_first c d (x # xs) = (if x = c then d # xs else x # replace_first c d xs)"

subsection \<open>The name slug of a document file\<close>

text \<open>\<open>.replace(/[^a-z0-9]+/g, "-")\<close>: every maximal run of other characters becomes one hyphen.\<close>

function hyphenate :: "string \<Rightarrow> string" where
  "hyphenate [] = []"
| "hyphenate (c # cs) =
     (if is_lower_alnum c then c # hyphenate cs
      else hyphen # hyphenate (dropWhile (\<lambda>x. \<not> is_lower_alnum x) cs))"
  by pat_completeness auto
termination
  by (relation "measure length") (auto simp: le_imp_less_Suc length_dropWhile_le)

text \<open>\<open>.replace(/^-+|-+$/g, "")\<close>: the hyphens at the start and at the end go.\<close>

definition strip_hyphens :: "string \<Rightarrow> string" where
  "strip_hyphens s =
     rev (dropWhile (\<lambda>x. x = hyphen) (rev (dropWhile (\<lambda>x. x = hyphen) s)))"

definition slugify :: "string \<Rightarrow> string" where
  "slugify name = take 50 (strip_hyphens (hyphenate (toLowerCase name)))"

subsection \<open>MarkdownGenerator.processText\<close>

definition fence :: string where
  "fence = [backtick, backtick, backtick]"

text \<open>
  The leftmost occurrence of the fence in a text: what stands before it and what follows it.
\<close>

fun split_fence :: "string \<Rightarrow> (string \<times> string) option" where
  "split_fence [] = None"
| "split_fence (c # cs) =
     (if prefix fence (c # cs) then Some ([], drop 3 (c # cs))
      else map_option (\<lambda>(before, after). (c # before, after)) (split_fence cs))"

text \<open>No fence starts inside \<open>b\<close> when a fence follows \<open>b\<close>: the fence after \<open>b\<close> is the leftmost.\<close>

definition fence_free :: "string \<Rightarrow> bool" where
  "fence_free b = (split_fence (b @ fence) = Some (b, []))"

text \<open>
  The replacement callback: the tag is kept, one newline at the start of the code and one at
  its end are dropped when present, and the block is written with one newline on each side of
  the code.
\<close>

definition normalize_block :: "string \<Rightarrow> string \<Rightarrow> string" where
  "normalize_block language code =
     (let code1 = (if prefix [newline] code then drop 1 code else code);
          code2 = (if suffix [newline] code1 then take (length code1 - 1) code1 else code1)
      in fence @ trim language @ [newline] @ code2 @ [newline] @ fence)"

text \<open>
  \<open>text.replace(/```(\w*)([\s\S]*?)```/g, ...)\<close>. A match starts at the leftmost fence that has
  another fence after it; the tag is the longest run of word characters after the opening
  fence (no shorter tag can match where the longest does not, a word character being no
  backtick); the code runs up to the next fence. The search goes on after the closing fence.
  When no closing fence follows, nothing further in the text can match.
\<close>

function replace_blocks :: "string \<Rightarrow> string" where
  "replace_blocks t =
     (case split_fence t of
        None \<Rightarrow> t
      | Some (before, after) \<Rightarrow>
          (case split_fence (dropWhile is_word after) of
             None \<Rightarrow> t
           | Some (code, rest) \<Rightarrow>
               before @ normalize_block (takeWhile is_word after) code @ replace_blocks rest))"
  by pat_completeness auto

lemma split_fence_shorter:
  "split_fence t = Some (before, after) \<Longrightarrow> length after < length t"
proof (induction t arbitrary: before)
  case Nil
  then show ?case by simp
next
  case (Cons c cs)
  show ?case
  proof (cases "prefix fence (c # cs)")
    case True
    with Cons.prems show ?thesis by auto
  next
    case False
    with Cons.prems obtain b where "split_fence cs = Some (b, after)"
      by (auto split: prod.splits)
    from Cons.IH[OF this] show ?thesis by simp
  qed
qed

termination replace_blocks
proof (relation "measure length")
  show "wf (measure length)" by simp
next
  fix t :: string and x2 before after x2a code rest
  assume a: "split_fence t = Some x2" "(before, after) = x2"
    and b: "split_fence (dropWhile is_word after) = Some x2a" "(code, rest) = x2a"
  from a have "length after < length t"
    by (auto dest: split_fence_shorter)
  moreover from b have "length rest < length (dropWhile is_word after)"
    by (auto dest: split_fence_shorter)
  moreover have "length (dropWhile is_word after) \<le> length after"
    by (rule length_dropWhile_le)
  ultimately show "(rest, t) \<in> measure length" by simp
qed

declare replace_blocks.simps [simp del]

definition processText :: "string \<Rightarrow> string" where
  "processText t = (if t = [] then [] else replace_blocks t)"

section \<open>The runtime\<close>

text \<open>A \<open>Date\<close> that is valid, as its UTC fields.\<close>

record utc =
  year :: int
  month :: nat
  day :: nat
  hours :: nat
  minutes :: nat
  seconds :: nat
  milliseconds :: nat

text \<open>
  What the code takes from the JavaScript runtime and from its libraries, and what it does to
  the file system:
  \<^item> \<open>date_of v\<close> is \<open>new Date(v)\<close>, \<open>None\<close> for an invalid date;
  \<^item> \<open>now\<close> is \<open>new Date()\<close>;
  \<^item> \<open>string_of v\<close> is the text a template literal gives for a value that is not a string;
  \<^item> \<open>greater_than_zero v\<close> is \<open>v > 0\<close> for a value that is not a number, a boolean,
    \<open>null\<close> or \<open>undefined\<close>;
  \<^item> \<open>path_join\<close> is \<open>path.join\<close>;
  \<^item> \<open>writeFile path content\<close> is the error \<open>fs.writeFile\<close> throws, if any;
  \<^item> \<open>document_body c\<close> is what \<open>MarkdownGenerator.generate\<close> appends after the title line:
    the metadata block, the messages and the footer (or the exception raised on the way).
\<close>

record runtime =
  date_of :: "jsval \<Rightarrow> utc option"
  now :: utc
  string_of :: "jsval \<Rightarrow> string"
  greater_than_zero :: "jsval \<Rightarrow> bool"
  path_join :: "string \<Rightarrow> string \<Rightarrow> string"
  writeFile :: "string \<Rightarrow> string \<Rightarrow> error option"
  document_body :: "jsobj \<Rightarrow> error + string"

text \<open>The text of a value inside a template literal.\<close>

definition template :: "runtime \<Rightarrow> jsval \<Rightarrow> string" where
  "template rt v = (case v of JStr s \<Rightarrow> s | _ \<Rightarrow> string_of rt v)"

text \<open>\<open>v.k\<close> for any value: reading a property of \<open>null\<close> or \<open>undefined\<close> throws.\<close>

fun member :: "jsval \<Rightarrow> string \<Rightarrow> error + jsval" where
  "member JUndefined k = Inl (TypeError (''Cannot read properties of undefined (reading '' @ k @ '')''))"
| "member JNull k = Inl (TypeError (''Cannot read properties of null (reading '' @ k @ '')''))"
| "member (JObj obj) k = Inr (get obj k)"
| "member (JArr xs) k = Inr (if k = ''length'' then JNum (int (length xs)) else JUndefined)"
| "member (JStr s) k = Inr (if k = ''length'' then JNum (int (length s)) else JUndefined)"
| "member _ k = Inr JUndefined"

text \<open>\<open>v[0]\<close> for a value that is neither \<open>null\<close> nor \<open>undefined\<close>.\<close>

fun first_element :: "jsval \<Rightarrow> jsval" where
  "first_element (JArr xs) = (case xs of [] \<Rightarrow> JUndefined | x # _ \<Rightarrow> x)"
| "first_element (JStr s) = (case s of [] \<Rightarrow> JUndefined | c # _ \<Rightarrow> JStr [c])"
| "first_element (JObj obj) = get obj ''0''"
| "first_element _ = JUndefined"

text \<open>\<open>v > 0\<close>.\<close>

fun positive :: "runtime \<Rightarrow> jsval \<Rightarrow> bool" where
  "positive rt (JNum n) = (0 < n)"
| "positive rt (JBool b) = b"
| "positive rt JNull = False"
| "positive rt JUndefined = False"
| "positive rt v = greater_than_zero rt v"

section \<open>MarkdownGenerator\<close>

text \<open>
  \<open>getTitle\<close>. A truthy \<open>name\<close> or \<open>text\<close> that is not a string has no \<open>trim\<close> method, and
  calling it throws.
\<close>

definition first_line_title :: "string \<Rightarrow> string" where
  "first_line_title t =
     (let firstLine = trim (takeWhile (\<lambda>c. c \<noteq> newline) t)
      in if 50 < length firstLine then take 50 firstLine @ ''...'' else firstLine)"

definition first_message_title :: "runtime \<Rightarrow> jsobj \<Rightarrow> error + string option" where
  "first_message_title rt conversation =
     (let chat_messages = get conversation ''chat_messages''
      in if \<not> truthy chat_messages then Inr None
         else case member chat_messages ''length'' of
           Inl e \<Rightarrow> Inl e
         | Inr len \<Rightarrow>
             if \<not> positive rt len then Inr None
             else case member (first_element chat_messages) ''text'' of
               Inl e \<Rightarrow> Inl e
             | Inr txt \<Rightarrow>
                 if \<not> truthy txt then Inr None
                 else case txt of
                   JStr t \<Rightarrow> if trim t \<noteq> [] then Inr (Some (first_line_title t)) else Inr None
                 | _ \<Rightarrow> Inl (TypeError ''firstMessage.text.trim is not a function''))"

definition getTitle :: "runtime \<Rightarrow> jsobj \<Rightarrow> error + string" where
  "getTitle rt conversation =
     (let name = get conversation ''name'';
          from_messages =
            (case first_message_title rt conversation of
               Inl e \<Rightarrow> Inl e
             | Inr (Some title) \<Rightarrow> Inr title
             | Inr None \<Rightarrow> Inr (''Conversation '' @ template rt (get conversation ''uuid'')))
      in if \<not> truthy name then from_messages
         else case name of
           JStr n \<Rightarrow> if trim n \<noteq> [] then Inr n else from_messages
         | _ \<Rightarrow> Inl (TypeError ''conversation.name.trim is not a function''))"

text \<open>
  \<open>generate\<close>: the title line, then the rest of the document; any exception is raised again
  as an \<open>Error\<close> that carries its message.
\<close>

definition generate :: "runtime \<Rightarrow> jsobj \<Rightarrow> error + string" where
  "generate rt conversation =
     (case (case getTitle rt conversation of
              Inl e \<Rightarrow> Inl e
            | Inr title \<Rightarrow>
                (case document_body rt conversation of
                   Inl e \<Rightarrow> Inl e
                 | Inr body \<Rightarrow> Inr (''# '' @ title @ [newline, newline] @ body))) of
        Inl e \<Rightarrow> Inl (Error (''Failed to generate markdown: '' @ message e))
      | Inr markdown \<Rightarrow> Inr markdown)"

section \<open>AppController.generateMarkdownFiles\<close>

subsection \<open>The file name\<close>

definition digit_char :: "nat \<Rightarrow> char" where
  "digit_char n = ''0123456789'' ! (n mod 10)"

definition two_digits :: "nat \<Rightarrow> string" where
  "two_digits n = [digit_char (n div 10), digit_char n]"

definition three_digits :: "nat \<Rightarrow> string" where
  "three_digits n = digit_char (n div 100) # two_digits n"

definition four_digits :: "nat \<Rightarrow> string" where
  "four_digits n = two_digits (n div 100) @ two_digits n"

definition six_digits :: "nat \<Rightarrow> string" where
  "six_digits n = two_digits (n div 10000) @ four_digits n"

text \<open>
  \<open>Date.prototype.toISOString\<close>: \<open>YYYY-MM-DDTHH:mm:ss.sssZ\<close>, the year with a sign and six
  digits when it is not within 0 to 9999.
\<close>

definition toISOString :: "utc \<Rightarrow> string" where
  "toISOString d =
     (if 0 \<le> year d \<and> year d \<le> 9999 then four_digits (nat (year d))
      else (if year d < 0 then ''-'' else ''+'') @ six_digits (nat \<bar>year d\<bar>))
     @ ''-'' @ two_digits (month d) @ ''-'' @ two_digits (day d)
     @ ''T'' @ two_digits (hours d) @ '':'' @ two_digits (minutes d)
     @ '':'' @ two_digits (seconds d) @ ''.'' @ three_digits (milliseconds d) @ ''Z''"

text \<open>
  \<open>new Date(conversation.created_at || new Date()).toISOString().replace(/[-:]/g, "")
  .replace("T", "_").slice(0, 15)\<close>; \<open>toISOString\<close> throws on an invalid date.
\<close>

definition timestamp :: "runtime \<Rightarrow> jsobj \<Rightarrow> error + string" where
  "timestamp rt conversation =
     (let created_at = get conversation ''created_at''
      in case (if truthy created_at then date_of rt created_at else Some (now rt)) of
           None \<Rightarrow> Inl (RangeError ''Invalid time value'')
         | Some d \<Rightarrow>
             Inr (take 15 (replace_first (CHR ''T'') (CHR ''_'')
                    (filter (\<lambda>c. c \<noteq> hyphen \<and> c \<noteq> CHR '':'') (toISOString d)))))"

text \<open>The slug of the name, or the \<open>uuid\<close> when there is no name or its slug is empty.\<close>

definition nameSlug :: "jsobj \<Rightarrow> error + jsval" where
  "nameSlug conversation =
     (let name = get conversation ''name''
      in if \<not> truthy name then Inr (get conversation ''uuid'')
         else case name of
           JStr n \<Rightarrow>
             (let slug = slugify n
              in if slug = [] then Inr (get conversation ''uuid'') else Inr (JStr slug))
         | _ \<Rightarrow> Inl (TypeError ''conversation.name.toLowerCase is not a function''))"

definition filename :: "runtime \<Rightarrow> jsobj \<Rightarrow> error + string" where
  "filename rt conversation =
     (case timestamp rt conversation of
        Inl e \<Rightarrow> Inl e
      | Inr ts \<Rightarrow>
          (case nameSlug conversation of
             Inl e \<Rightarrow> Inl e
           | Inr slug \<Rightarrow> Inr (ts @ ''_'' @ template rt slug @ ''.md'')))"

subsection \<open>The rendering loop\<close>

record render_state =
  db :: collection
  generatedCount :: nat
  skippedCount_r :: nat

text \<open>The test at the head of the loop body.\<close>

definition render_skip :: "bool \<Rightarrow> jsobj \<Rightarrow> bool" where
  "render_skip force conversation =
     (\<not> force \<and> truthy (get conversation ''processed'')
             \<and> truthy (get conversation ''markdownPath''))"

text \<open>
  The \<open>try\<close> block up to the write of the file: the path written, or the exception that the
  \<open>catch\<close> logs.
\<close>

definition write_markdown :: "runtime \<Rightarrow> string \<Rightarrow> jsobj \<Rightarrow> error + string" where
  "write_markdown rt outputDir conversation =
     (case generate rt conversation of
        Inl e \<Rightarrow> Inl e
      | Inr markdown \<Rightarrow>
          (case filename rt conversation of
             Inl e \<Rightarrow> Inl e
           | Inr fname \<Rightarrow>
               (let outputPath = path_join rt outputDir fname
                in case writeFile rt outputPath markdown of
                     Some e \<Rightarrow> Inl e
                   | None \<Rightarrow> Inr outputPath)))"

definition renderConversation ::
  "runtime \<Rightarrow> bool \<Rightarrow> string \<Rightarrow> render_state \<Rightarrow> jsobj \<Rightarrow> render_state" where
  "renderConversation rt force outputDir st conversation =
     (if render_skip force conversation
      then st\<lparr>skippedCount_r := Suc (skippedCount_r st)\<rparr>
      else case write_markdown rt outputDir conversation of
             Inl e \<Rightarrow> st
           | Inr outputPath \<Rightarrow>
               st\<lparr>db := fst (update_item (db st) (get conversation ''uuid'')
                              [(''processed'', JBool True), (''markdownPath'', JStr outputPath)]),
                  generatedCount := Suc (generatedCount st)\<rparr>)"

lemma length_update_item: "length (fst (update_item s u upd)) = length s"
  by (simp add: update_item_def Let_def split: option.splits)

lemma length_renderConversation:
  "length (db (renderConversation rt force outputDir st conversation)) = length (db st)"
  by (simp add: renderConversation_def length_update_item split: sum.splits)

text \<open>
  \<open>for (const conversation of conversations)\<close>: \<open>conversations\<close> is the stored array itself, so
  the element read at each index is the one the earlier iterations left there.
\<close>

function render_from ::
  "runtime \<Rightarrow> bool \<Rightarrow> string \<Rightarrow> nat \<Rightarrow> render_state \<Rightarrow> render_state" where
  "render_from rt force outputDir i st =
     (if i < length (db st)
      then render_from rt force outputDir (Suc i)
             (renderConversation rt force outputDir st (db st ! i))
      else st)"
  by pat_completeness auto
termination
  by (relation "measure (\<lambda>(rt, force, outputDir, i, st). length (db st) - i)")
    (auto simp: length_renderConversation)

declare render_from.simps [simp del]

definition generateMarkdownFiles :: "runtime \<Rightarrow> bool \<Rightarrow> string \<Rightarrow> collection \<Rightarrow> render_state" where
  "generateMarkdownFiles rt force outputDir s =
     render_from rt force outputDir 0 \<lparr>db = s, generatedCount = 0, skippedCount_r = 0\<rparr>"

text \<open>What the loop does to one record when no other record carries its \<open>uuid\<close>.\<close>

definition rendered :: "runtime \<Rightarrow> bool \<Rightarrow> string \<Rightarrow> jsobj \<Rightarrow> jsobj" where
  "rendered rt force outputDir conversation =
     (if render_skip force conversation then conversation
      else case write_markdown rt outputDir conversation of
             Inl e \<Rightarrow> conversation
           | Inr outputPath \<Rightarrow>
               spread conversation
                 [(''processed'', JBool True), (''markdownPath'', JStr outputPath)])"

text \<open>A runtime for the examples: every date is noon of 1 January 2025 and every write succeeds.\<close>

definition example_runtime :: runtime where
  "example_runtime =
     \<lparr>date_of = (\<lambda>v. Some \<lparr>year = 2025, month = 1, day = 1, hours = 12, minutes = 0,
                            seconds = 0, milliseconds = 0\<rparr>),
      now = \<lparr>year = 2025, month = 1, day = 1, hours = 12, minutes = 0, seconds = 0,
             milliseconds = 0\<rparr>,
      string_of = (\<lambda>v. ''''),
      greater_than_zero = (\<lambda>v. False),
      path_join = (\<lambda>dir file. dir @ ''/'' @ file),
      writeFile = (\<lambda>path content. None),
      document_body = (\<lambda>c. Inr '''')\<rparr>"

section \<open>ZipProcessor\<close>

text \<open>
  What reading an extracted file gives: the JSON value it holds, the message of the parser's
  error when the text is not JSON, or the message of the I/O error when it cannot be read.
\<close>

datatype file_content =
    Json jsval
  | Malformed string
  | Unreadable string

text \<open>
  An archive that \<open>AdmZip\<close> could open: the names of its entries in order, the message of the
  error \<open>extractAllTo\<close> throws (if it throws), and, for an entry name, the content of the file
  at \<open>path.join(tempDir, entryName)\<close> after the extraction. A file that \<open>AdmZip\<close> cannot open
  gives the constructor's error message.
\<close>

record archive =
  entryNames :: "string list"
  extract_error :: "string option"
  file_at :: "string \<Rightarrow> file_content"

datatype zip_file =
    Corrupt string
  | Readable archive

record export_data =
  users :: "jsval list"
  projects :: "jsval list"
  conversations :: "jsval list"

text \<open>\<open>entries.find((e) => e.entryName.includes(fragment))\<close>.\<close>

definition find_entry :: "string \<Rightarrow> string list \<Rightarrow> string option" where
  "find_entry fragment names = List.find (\<lambda>entryName. includes_str entryName fragment) names"

text \<open>\<open>processJsonFile\<close>: the array in the file, and the empty array for anything else.\<close>

definition processJsonFile :: "file_content \<Rightarrow> jsval list" where
  "processJsonFile content = (case content of Json (JArr xs) \<Rightarrow> xs | _ \<Rightarrow> [])"

text \<open>
  \<open>processConversationsFile\<close>: the promise is rejected on a read or parse error and resolved
  with the elements pushed one by one when the file holds an array. For any other JSON value
  the array streamer emits an error that has no listener, and the promise is never settled:
  there is no result.
\<close>

definition processConversationsFile :: "file_content \<Rightarrow> (error + jsval list) option" where
  "processConversationsFile content =
     (case content of
        Unreadable m \<Rightarrow> Some (Inl (Error (''Error reading file: '' @ m)))
      | Malformed m \<Rightarrow> Some (Inl (Error (''Error parsing JSON: '' @ m)))
      | Json (JArr xs) \<Rightarrow> Some (Inr (fold (\<lambda>v conversations. conversations @ [v]) xs []))
      | Json _ \<Rightarrow> None)"

text \<open>The body of the \<open>try\<close> block of \<open>process\<close>.\<close>

definition process_body :: "zip_file \<Rightarrow> (error + export_data) option" where
  "process_body zf =
     (case zf of
        Corrupt m \<Rightarrow> Some (Inl (Error m))
      | Readable a \<Rightarrow>
          (let conversationsEntry = find_entry ''conversations.json'' (entryNames a);
               usersEntry = find_entry ''users.json'' (entryNames a);
               projectsEntry = find_entry ''projects.json'' (entryNames a)
           in case conversationsEntry of
                None \<Rightarrow> Some (Inl (Error ''Missing conversations.json file in the zip archive''))
              | Some c \<Rightarrow>
                  (case extract_error a of
                     Some m \<Rightarrow> Some (Inl (Error m))
                   | None \<Rightarrow>
                       (let us = (case usersEntry of
                                    Some u \<Rightarrow> processJsonFile (file_at a u) | None \<Rightarrow> []);
                            ps = (case projectsEntry of
                                    Some p \<Rightarrow> processJsonFile (file_at a p) | None \<Rightarrow> [])
                        in case processConversationsFile (file_at a c) of
                             None \<Rightarrow> None
                           | Some (Inl e) \<Rightarrow> Some (Inl e)
                           | Some (Inr cs) \<Rightarrow>
                               Some (Inr \<lparr>users = us, projects = ps, conversations = cs\<rparr>)))))"

text \<open>\<open>process\<close>: whatever the body throws is thrown again as an \<open>Error\<close> with a prefixed message.\<close>

definition process :: "zip_file \<Rightarrow> (error + export_data) option" where
  "process zf =
     (case process_body zf of
        None \<Rightarrow> None
      | Some (Inl e) \<Rightarrow> Some (Inl (Error (''Failed to process zip file: '' @ message e)))
      | Some (Inr data) \<Rightarrow> Some (Inr data))"

text \<open>The message of the error the zip library itself raised on this archive, if it did.\<close>

definition library_message :: "zip_file \<Rightarrow> string option" where
  "library_message zf = (case zf of Corrupt m \<Rightarrow> Some m | Readable a \<Rightarrow> extract_error a)"

section \<open>Properties of the repository\<close>

lemma strict_eq_primitive: "primitive u \<Longrightarrow> strict_eq x u = (x = u)"
  by (cases x; cases u) auto

lemma findIndex_None: "findIndex P xs = None \<longleftrightarrow> \<not> list_ex P xs"
  by (induction xs) auto

lemma findIndex_Some:
  "findIndex P xs = Some i \<Longrightarrow> i < length xs \<and> P (xs ! i) \<and> (\<forall>j<i. \<not> P (xs ! j))"
proof (induction xs arbitrary: i)
  case Nil
  then show ?case by simp
next
  case (Cons x xs)
  show ?case
  proof (cases "P x")
    case True
    with Cons.prems show ?thesis by simp
  next
    case False
    with Cons.prems obtain k where k: "findIndex P xs = Some k" "i = Suc k"
      by auto
    from Cons.IH[OF k(1)] False k(2) show ?thesis
      by (auto simp: less_Suc_eq_0_disj)
  qed
qed

lemma findIndex_first:
  "i < length xs \<Longrightarrow> P (xs ! i) \<Longrightarrow> \<forall>j<i. \<not> P (xs ! j) \<Longrightarrow> findIndex P xs = Some i"
proof (induction xs arbitrary: i)
  case Nil
  then show ?case by simp
next
  case (Cons x xs)
  show ?case
  proof (cases i)
    case 0
    with Cons.prems show ?thesis by simp
  next
    case (Suc k)
    with Cons.prems have "\<not> P x" by auto
    moreover have "findIndex P xs = Some k"
      using Cons.prems Suc by (intro Cons.IH) auto
    ultimately show ?thesis using Suc by simp
  qed
qed

lemma map_of_spread_other:
  "k \<notin> fst ` set b \<Longrightarrow> map_of (spread a b) k = map_of a k"
  unfolding spread_def
  by (induction b arbitrary: a) (auto simp: update_conv')

lemma map_of_spread_in:
  "distinct (map fst b) \<Longrightarrow> k \<in> fst ` set b \<Longrightarrow> map_of (spread a b) k = map_of b k"
  unfolding spread_def
proof (induction b arbitrary: a)
  case Nil
  then show ?case by simp
next
  case (Cons x b)
  obtain k' v where x: "x = (k', v)" by (cases x)
  show ?case
  proof (cases "k = k'")
    case True
    with Cons.prems x have "k \<notin> fst ` set b" by auto
    then have "map_of (spread (AList.update k' v a) b) k = map_of (AList.update k' v a) k"
      by (rule map_of_spread_other)
    then show ?thesis using True x by (simp add: spread_def update_conv')
  next
    case False
    with Cons.prems x have "k \<in> fst ` set b" "distinct (map fst b)" by auto
    from Cons.IH[OF this(2) this(1)] show ?thesis using False x by simp
  qed
qed

lemma spread_idem:
  "distinct (map fst b) \<Longrightarrow> spread (spread a b) b = spread a b"
proof (induction b arbitrary: a)
  case Nil
  then show ?case by (simp add: spread_def)
next
  case (Cons x b)
  obtain k v where x: "x = (k, v)" by (cases x)
  from Cons.prems x have nk: "k \<notin> fst ` set b" and d: "distinct (map fst b)" by auto
  let ?a' = "AList.update k v a"
  have step: "spread c (x # b) = spread (AList.update k v c) b" for c
    by (simp add: spread_def x)
  have "map_of (spread ?a' b) k = Some v"
    using map_of_spread_other[OF nk, of ?a'] by (simp add: update_conv')
  then have "AList.update k v (spread ?a' b) = spread ?a' b"
    by (rule update_triv)
  then have "spread (spread a (x # b)) (x # b) = spread (spread ?a' b) b"
    by (simp add: step)
  also have "\<dots> = spread ?a' b" by (rule Cons.IH[OF d])
  finally show ?case by (simp add: step)
qed


lemma spread_same:
  "\<forall>(k, v) \<in> set b. map_of a k = Some v \<Longrightarrow> spread a b = a"
proof (induction b)
  case Nil
  then show ?case by (simp add: spread_def)
next
  case (Cons x b)
  obtain k v where x: "x = (k, v)" by (cases x)
  with Cons.prems have "map_of a k = Some v" by simp
  then have "AList.update k v a = a" by (rule update_triv)
  moreover have "spread a (x # b) = spread (AList.update k v a) b"
    by (simp add: spread_def x)
  ultimately show ?case using Cons by simp
qed

lemma spread_self: "distinct (map fst r) \<Longrightarrow> spread r r = r"
  by (rule spread_same) auto

lemma get_spread:
  "distinct (map fst b) \<Longrightarrow>
   get (spread a b) k = (if k \<in> fst ` set b then get b k else get a k)"
  by (simp add: get_def map_of_spread_in map_of_spread_other)

lemma has_uuid_spread:
  assumes "distinct (map fst r)" "primitive (get r ''uuid'')" "has_uuid (get r ''uuid'') a"
  shows "has_uuid (get r ''uuid'') (spread a r)"
proof (cases "''uuid'' \<in> fst ` set r")
  case True
  then show ?thesis using assms(1,2)
    by (simp add: has_uuid_def get_spread strict_eq_primitive)
next
  case False
  then show ?thesis using assms(1,3)
    by (simp add: has_uuid_def get_spread)
qed

lemma findIndex_update_same:
  assumes "findIndex P xs = Some i" "P y"
  shows "findIndex P (xs[i := y]) = Some i"
proof (rule findIndex_first)
  from findIndex_Some[OF assms(1)] have i: "i < length xs" and b: "\<forall>j<i. \<not> P (xs ! j)"
    by auto
  show "i < length (xs[i := y])" using i by simp
  show "P (xs[i := y] ! i)" using i assms(2) by simp
  show "\<forall>j<i. \<not> P (xs[i := y] ! j)" using b by simp
qed

lemma findIndex_append_new:
  assumes "findIndex P xs = None" "P y"
  shows "findIndex P (xs @ [y]) = Some (length xs)"
proof (rule findIndex_first)
  show "length xs < length (xs @ [y])" by simp
  show "P ((xs @ [y]) ! length xs)" using assms(2) by simp
  from assms(1) have "\<not> list_ex P xs" by (simp add: findIndex_None)
  then show "\<forall>j<length xs. \<not> P ((xs @ [y]) ! j)"
    by (auto simp: list_ex_iff nth_append)
qed

lemma upsert_existing:
  assumes "findIndex (has_uuid (get r ''uuid'')) s = Some i"
  shows "fst (upsert s r) = s[i := spread (s ! i) r]"
proof -
  from assms have "list_ex (has_uuid (get r ''uuid'')) s"
    using findIndex_None[of "has_uuid (get r ''uuid'')" s] by auto
  then show ?thesis using assms
    by (simp add: upsert_def exists_item_def update_item_def Let_def)
qed

lemma upsert_new:
  assumes "findIndex (has_uuid (get r ''uuid'')) s = None"
  shows "fst (upsert s r) = s @ [r]"
  using assms by (simp add: upsert_def exists_item_def insert_item_def findIndex_None)

text \<open>
  C4. Upserting a record twice leaves the collection as upserting it once does, and \<open>count()\<close>
  is the same after the second call as after the first. The record is a well-formed object
  (its property names are distinct) and its \<open>uuid\<close> is a primitive value.
\<close>

theorem upsert_idempotent:
  assumes "distinct (map fst r)" and "primitive (get r ''uuid'')"
  shows "fst (upsert (fst (upsert s r)) r) = fst (upsert s r)
       \<and> count_items (fst (upsert (fst (upsert s r)) r)) = count_items (fst (upsert s r))"
proof -
  let ?u = "get r ''uuid''"
  have "fst (upsert (fst (upsert s r)) r) = fst (upsert s r)"
  proof (cases "findIndex (has_uuid ?u) s")
    case None
    have own: "has_uuid ?u r"
      using assms(2) by (simp add: has_uuid_def strict_eq_primitive)
    have s1: "fst (upsert s r) = s @ [r]" by (rule upsert_new[OF None])
    have "findIndex (has_uuid ?u) (s @ [r]) = Some (length s)"
      by (rule findIndex_append_new[OF None own])
    then have "fst (upsert (s @ [r]) r) = (s @ [r])[length s := spread ((s @ [r]) ! length s) r]"
      by (rule upsert_existing)
    also have "\<dots> = s @ [r]" by (simp add: spread_self[OF assms(1)])
    finally show ?thesis by (simp add: s1)
  next
    case (Some i)
    from findIndex_Some[OF Some] have i: "i < length s" and hit: "has_uuid ?u (s ! i)"
      by auto
    let ?m = "spread (s ! i) r"
    have s1: "fst (upsert s r) = s[i := ?m]" by (rule upsert_existing[OF Some])
    have "has_uuid ?u ?m" by (rule has_uuid_spread[OF assms hit])
    then have "findIndex (has_uuid ?u) (s[i := ?m]) = Some i"
      by (rule findIndex_update_same[OF Some])
    then have "fst (upsert (s[i := ?m]) r) = (s[i := ?m])[i := spread (s[i := ?m] ! i) r]"
      by (rule upsert_existing)
    also have "\<dots> = s[i := ?m]" using i by (simp add: spread_idem[OF assms(1)])
    finally show ?thesis by (simp add: s1)
  qed
  then show ?thesis by simp
qed

theorem upsert_idempotent_witness:
  "distinct (map fst [(''uuid'', JStr ''a''), (''name'', JStr ''y'')])
   \<and> primitive (get [(''uuid'', JStr ''a''), (''name'', JStr ''y'')] ''uuid'')
   \<and> fst (upsert (fst (upsert [[(''uuid'', JStr ''a''), (''name'', JStr ''x'')]]
                              [(''uuid'', JStr ''a''), (''name'', JStr ''y'')]))
                 [(''uuid'', JStr ''a''), (''name'', JStr ''y'')])
       = fst (upsert [[(''uuid'', JStr ''a''), (''name'', JStr ''x'')]]
                     [(''uuid'', JStr ''a''), (''name'', JStr ''y'')])
   \<and> count_items (fst (upsert (fst (upsert [[(''uuid'', JStr ''a''), (''name'', JStr ''x'')]]
                              [(''uuid'', JStr ''a''), (''name'', JStr ''y'')]))
                 [(''uuid'', JStr ''a''), (''name'', JStr ''y'')]))
       = count_items (fst (upsert [[(''uuid'', JStr ''a''), (''name'', JStr ''x'')]]
                     [(''uuid'', JStr ''a''), (''name'', JStr ''y'')]))"
  using upsert_idempotent [of "[(''uuid'', JStr ''a''), (''name'', JStr ''y'')]"
      "[[(''uuid'', JStr ''a''), (''name'', JStr ''x'')]]"]
  by (simp add: get_def)

lemma distinct_remove_nth:
  "distinct xs \<Longrightarrow> distinct (take i xs @ drop (Suc i) xs)"
proof (induction xs arbitrary: i)
  case Nil
  then show ?case by simp
next
  case (Cons x xs)
  show ?case
  proof (cases i)
    case 0
    with Cons.prems show ?thesis by simp
  next
    case (Suc k)
    from Cons.prems have "x \<notin> set (take k xs)" "x \<notin> set (drop (Suc k) xs)"
      by (auto dest: in_set_takeD in_set_dropD)
    moreover from Cons have "distinct (take k xs @ drop (Suc k) xs)" by simp
    ultimately show ?thesis using Suc by simp
  qed
qed

lemma uuids_update_item_keep:
  assumes "''uuid'' \<notin> fst ` set upd"
  shows "uuids (fst (update_item s u upd)) = uuids s"
proof (cases "findIndex (has_uuid u) s")
  case None
  then show ?thesis by (simp add: update_item_def)
next
  case (Some i)
  from findIndex_Some[OF Some] have i: "i < length s" by simp
  have "get (spread (s ! i) upd) ''uuid'' = get (s ! i) ''uuid''"
    using assms by (simp add: get_def map_of_spread_other)
  then have "uuids (s[i := spread (s ! i) upd]) = uuids s"
    using i by (simp add: uuids_def map_update list_update_same_conv)
  then show ?thesis using Some by (simp add: update_item_def Let_def)
qed

lemma distinct_uuids_delete_item:
  assumes "distinct (uuids s)"
  shows "distinct (uuids (fst (delete_item s u)))"
proof (cases "findIndex (has_uuid u) s")
  case None
  then show ?thesis using assms by (simp add: delete_item_def)
next
  case (Some i)
  have "uuids (take i s @ drop (Suc i) s) = take i (uuids s) @ drop (Suc i) (uuids s)"
    by (simp add: uuids_def take_map drop_map)
  moreover have "distinct (take i (uuids s) @ drop (Suc i) (uuids s))"
    using assms by (rule distinct_remove_nth)
  ultimately show ?thesis using Some by (simp add: delete_item_def)
qed

lemma distinct_uuids_upsert:
  assumes "distinct (uuids s)" "distinct (map fst r)" "primitive (get r ''uuid'')"
  shows "distinct (uuids (fst (upsert s r)))"
proof (cases "findIndex (has_uuid (get r ''uuid'')) s")
  case None
  then have "\<not> list_ex (has_uuid (get r ''uuid'')) s" by (simp add: findIndex_None)
  then have "get r ''uuid'' \<notin> set (uuids s)"
    using assms(3) by (auto simp: list_ex_iff has_uuid_def uuids_def strict_eq_primitive)
  then show ?thesis using assms(1) None by (simp add: upsert_new uuids_def)
next
  case (Some i)
  from findIndex_Some[OF Some] have i: "i < length s" and hit: "has_uuid (get r ''uuid'') (s ! i)"
    by auto
  from hit assms(3) have old: "get (s ! i) ''uuid'' = get r ''uuid''"
    by (simp add: has_uuid_def strict_eq_primitive)
  have "has_uuid (get r ''uuid'') (spread (s ! i) r)"
    by (rule has_uuid_spread[OF assms(2,3) hit])
  with assms(3) have "get (spread (s ! i) r) ''uuid'' = get (s ! i) ''uuid''"
    by (simp add: has_uuid_def strict_eq_primitive old)
  then have "uuids (s[i := spread (s ! i) r]) = uuids s"
    using i by (simp add: uuids_def map_update list_update_same_conv)
  then show ?thesis using assms(1) Some by (simp add: upsert_existing)
qed

text \<open>
  C3, as the code has it. \<open>upsert\<close> and \<open>delete\<close> keep the \<open>uuid\<close> values of a collection
  pairwise distinct; \<open>update\<close> keeps them when the partial record has no \<open>uuid\<close> property;
  \<open>insert\<close> keeps them when the record's \<open>uuid\<close> is not stored yet (it appends without
  looking).
\<close>

theorem store_keeps_uuids_distinct:
  assumes "distinct (uuids s)"
  shows "(distinct (map fst r) \<and> primitive (get r ''uuid'')
            \<longrightarrow> distinct (uuids (fst (upsert s r))))
       \<and> distinct (uuids (fst (delete_item s u)))
       \<and> (''uuid'' \<notin> fst ` set upd \<longrightarrow> distinct (uuids (fst (update_item s u upd))))
       \<and> (get r ''uuid'' \<notin> set (uuids s) \<longrightarrow> distinct (uuids (fst (insert_item s r))))"
proof -
  have "get r ''uuid'' \<notin> set (uuids s) \<Longrightarrow> distinct (uuids (fst (insert_item s r)))"
    using assms by (simp add: insert_item_def uuids_def)
  then show ?thesis
    using assms
    by (simp add: distinct_uuids_upsert distinct_uuids_delete_item uuids_update_item_keep)
qed

theorem store_keeps_uuids_distinct_witness:
  "distinct (uuids [[(''uuid'', JStr ''a'')], [(''uuid'', JStr ''b'')]])
   \<and> distinct (map fst [(''uuid'', JStr ''b''), (''name'', JStr ''n'')])
   \<and> primitive (get [(''uuid'', JStr ''b''), (''name'', JStr ''n'')] ''uuid'')
   \<and> distinct (uuids (fst (upsert [[(''uuid'', JStr ''a'')], [(''uuid'', JStr ''b'')]]
                                   [(''uuid'', JStr ''b''), (''name'', JStr ''n'')])))
   \<and> distinct (uuids (fst (delete_item [[(''uuid'', JStr ''a'')], [(''uuid'', JStr ''b'')]]
                                        (JStr ''a''))))
   \<and> ''uuid'' \<notin> fst ` set [(''processed'', JBool True)]
   \<and> distinct (uuids (fst (update_item [[(''uuid'', JStr ''a'')], [(''uuid'', JStr ''b'')]]
                                        (JStr ''a'') [(''processed'', JBool True)])))
   \<and> get [(''uuid'', JStr ''c'')] ''uuid'' \<notin> set (uuids [[(''uuid'', JStr ''a'')], [(''uuid'', JStr ''b'')]])
   \<and> distinct (uuids (fst (insert_item [[(''uuid'', JStr ''a'')], [(''uuid'', JStr ''b'')]]
                                        [(''uuid'', JStr ''c'')])))"
proof -
  have d: "distinct (uuids [[(''uuid'', JStr ''a'')], [(''uuid'', JStr ''b'')]])"
    by (simp add: uuids_def get_def)
  have "get [(''uuid'', JStr ''c'')] ''uuid'' \<notin> set (uuids [[(''uuid'', JStr ''a'')], [(''uuid'', JStr ''b'')]])"
    by (simp add: uuids_def get_def)
  with d show ?thesis
    using store_keeps_uuids_distinct [OF d, of "[(''uuid'', JStr ''b''), (''name'', JStr ''n'')]"
        "JStr ''a''" "[(''processed'', JBool True)]"]
      store_keeps_uuids_distinct [OF d, of "[(''uuid'', JStr ''c'')]" "JStr ''a''" "[]"]
    by (simp add: get_def)
qed

text \<open>
  C3 as stated fails: inserting a record whose \<open>uuid\<close> is stored gives two records with that
  \<open>uuid\<close>, and an update whose partial record carries another record's \<open>uuid\<close> does the same.
\<close>

theorem store_uuids_distinct_counterexample:
  "distinct (uuids [[(''uuid'', JStr ''a'')], [(''uuid'', JStr ''b'')]])
   \<and> \<not> distinct (uuids (fst (insert_item [[(''uuid'', JStr ''a'')], [(''uuid'', JStr ''b'')]]
                                          [(''uuid'', JStr ''a'')])))
   \<and> \<not> distinct (uuids (fst (update_item [[(''uuid'', JStr ''a'')], [(''uuid'', JStr ''b'')]]
                                          (JStr ''b'') [(''uuid'', JStr ''a'')])))"
  by (simp add: uuids_def get_def insert_item_def update_item_def has_uuid_def spread_def Let_def)

section \<open>The sync decision\<close>

lemma findByUuid_None:
  "primitive u \<Longrightarrow> findByUuid s u = None \<longleftrightarrow> u \<notin> set (uuids s)"
  by (auto simp: findByUuid_def find_None_iff has_uuid_def uuids_def strict_eq_primitive)

lemma shouldProcess_spec:
  assumes "primitive (get c ''updated_at'')"
    and "\<forall>e. existing = Some e \<longrightarrow>
           get e ''processed'' = JUndefined \<or> (\<exists>b. get e ''processed'' = JBool b)"
  shows "shouldProcess force existing c = spec_process force existing c"
proof (cases existing)
  case None
  then show ?thesis by (simp add: shouldProcess_def spec_process_def)
next
  case (Some e)
  with assms(2) have "get e ''processed'' = JUndefined \<or> (\<exists>b. get e ''processed'' = JBool b)"
    by simp
  then have "truthy (get e ''processed'') = (get e ''processed'' = JBool True)"
    by auto
  moreover have "strict_eq (get e ''updated_at'') (get c ''updated_at'')
      = (get e ''updated_at'' = get c ''updated_at'')"
    by (rule strict_eq_primitive[OF assms(1)])
  ultimately show ?thesis using Some by (simp add: shouldProcess_def spec_process_def)
qed

text \<open>
  C1. The decision on an incoming conversation is a function of \<open>force\<close>, of the stored record
  with its \<open>uuid\<close> and of the conversation: it is upserted exactly when the run is forced, or
  no record with its \<open>uuid\<close> is stored, or the stored record's \<open>processed\<close> is not \<open>true\<close>, or the
  stored \<open>updated_at\<close> differs from the incoming one; otherwise the collection is left as it
  is and the conversation counts as skipped. The conversation is a valid one (it has a
  \<open>uuid\<close>), its \<open>updated_at\<close> is a primitive value, and the \<open>processed\<close> of a stored record is a
  boolean or absent.
\<close>

theorem sync_decision:
  assumes "truthy (get c ''uuid'')"
    and "primitive (get c ''updated_at'')"
    and "\<forall>e. findByUuid (db_conversations st) (get c ''uuid'') = Some e \<longrightarrow>
           get e ''processed'' = JUndefined \<or> (\<exists>b. get e ''processed'' = JBool b)"
  shows "storeConversation force st (JObj c) =
           (if spec_process force (findByUuid (db_conversations st) (get c ''uuid'')) c
            then st\<lparr>db_conversations := fst (upsert (db_conversations st) c),
                    processedCount := Suc (processedCount st)\<rparr>
            else st\<lparr>skippedCount := Suc (skippedCount st)\<rparr>)
       \<and> (primitive (get c ''uuid'') \<longrightarrow>
            (findByUuid (db_conversations st) (get c ''uuid'') = None
               \<longleftrightarrow> get c ''uuid'' \<notin> set (uuids (db_conversations st))))"
proof -
  have "shouldProcess force (findByUuid (db_conversations st) (get c ''uuid'')) c
      = spec_process force (findByUuid (db_conversations st) (get c ''uuid'')) c"
    by (rule shouldProcess_spec[OF assms(2,3)])
  with assms(1) have "storeConversation force st (JObj c) =
           (if spec_process force (findByUuid (db_conversations st) (get c ''uuid'')) c
            then st\<lparr>db_conversations := fst (upsert (db_conversations st) c),
                    processedCount := Suc (processedCount st)\<rparr>
            else st\<lparr>skippedCount := Suc (skippedCount st)\<rparr>)"
    by (simp add: storeConversation_def Let_def)
  then show ?thesis by (simp add: findByUuid_None)
qed

text \<open>
  The two cases of the specification: with \<open>force\<close> unset and the stored record processed, an
  incoming conversation with the stored \<open>updated_at\<close> is skipped, and one with another
  \<open>updated_at\<close> is upserted.
\<close>

theorem sync_decision_witness:
  "truthy (get [(''uuid'', JStr ''u1''), (''updated_at'', JStr ''T1'')] ''uuid'')
   \<and> primitive (get [(''uuid'', JStr ''u1''), (''updated_at'', JStr ''T1'')] ''updated_at'')
   \<and> findByUuid [[(''uuid'', JStr ''u1''), (''updated_at'', JStr ''T1''),
                    (''processed'', JBool True)]] (JStr ''u1'')
     = Some [(''uuid'', JStr ''u1''), (''updated_at'', JStr ''T1''), (''processed'', JBool True)]
   \<and> storeConversation False
        \<lparr>db_conversations = [[(''uuid'', JStr ''u1''), (''updated_at'', JStr ''T1''),
                               (''processed'', JBool True)]],
         processedCount = 0, skippedCount = 0\<rparr>
        (JObj [(''uuid'', JStr ''u1''), (''updated_at'', JStr ''T1'')])
     = \<lparr>db_conversations = [[(''uuid'', JStr ''u1''), (''updated_at'', JStr ''T1''),
                               (''processed'', JBool True)]],
         processedCount = 0, skippedCount = 1\<rparr>
   \<and> storeConversation False
        \<lparr>db_conversations = [[(''uuid'', JStr ''u1''), (''updated_at'', JStr ''T1''),
                               (''processed'', JBool True)]],
         processedCount = 0, skippedCount = 0\<rparr>
        (JObj [(''uuid'', JStr ''u1''), (''updated_at'', JStr ''T2'')])
     = \<lparr>db_conversations = [[(''uuid'', JStr ''u1''), (''updated_at'', JStr ''T2''),
                               (''processed'', JBool True)]],
         processedCount = 1, skippedCount = 0\<rparr>"
proof -
  let ?e = "[(''uuid'', JStr ''u1''), (''updated_at'', JStr ''T1''), (''processed'', JBool True)]"
  let ?st = "\<lparr>db_conversations = [?e], processedCount = 0, skippedCount = 0\<rparr>"
  let ?c1 = "[(''uuid'', JStr ''u1''), (''updated_at'', JStr ''T1'')]"
  let ?c2 = "[(''uuid'', JStr ''u1''), (''updated_at'', JStr ''T2'')]"
  have f: "findByUuid [?e] (JStr ''u1'') = Some ?e"
    by (simp add: findByUuid_def has_uuid_def get_def)
  have u1: "get ?c1 ''uuid'' = JStr ''u1''" and u2: "get ?c2 ''uuid'' = JStr ''u1''"
    by (simp_all add: get_def)
  have t1: "truthy (get ?c1 ''uuid'')" and t2: "truthy (get ?c2 ''uuid'')"
    by (simp_all add: get_def)
  have p1: "primitive (get ?c1 ''updated_at'')" and p2: "primitive (get ?c2 ''updated_at'')"
    by (simp_all add: get_def)
  have typed: "\<forall>e. findByUuid (db_conversations ?st) (JStr ''u1'') = Some e \<longrightarrow>
           get e ''processed'' = JUndefined \<or> (\<exists>b. get e ''processed'' = JBool b)"
    by (auto simp: f get_def)
  have typed1: "\<forall>e. findByUuid (db_conversations ?st) (get ?c1 ''uuid'') = Some e \<longrightarrow>
           get e ''processed'' = JUndefined \<or> (\<exists>b. get e ''processed'' = JBool b)"
    using typed by (simp only: u1)
  have typed2: "\<forall>e. findByUuid (db_conversations ?st) (get ?c2 ''uuid'') = Some e \<longrightarrow>
           get e ''processed'' = JUndefined \<or> (\<exists>b. get e ''processed'' = JBool b)"
    using typed by (simp only: u2)
  have up: "fst (upsert [?e] ?c2)
      = [[(''uuid'', JStr ''u1''), (''updated_at'', JStr ''T2''), (''processed'', JBool True)]]"
    by (simp add: upsert_def exists_item_def update_item_def has_uuid_def get_def spread_def
        Let_def)
  have skip: "storeConversation False ?st (JObj ?c1) = ?st\<lparr>skippedCount := Suc (skippedCount ?st)\<rparr>"
    unfolding sync_decision [OF t1 p1 typed1, of False, THEN conjunct1]
    by (simp add: u1 f spec_process_def get_def)
  have store: "storeConversation False ?st (JObj ?c2)
      = ?st\<lparr>db_conversations := fst (upsert (db_conversations ?st) ?c2),
             processedCount := Suc (processedCount ?st)\<rparr>"
    unfolding sync_decision [OF t2 p2 typed2, of False, THEN conjunct1]
    by (simp add: u2 f spec_process_def get_def)
  from t1 p1 f skip store up show ?thesis by simp
qed

section \<open>Code-block normalization\<close>

lemma newline_not_backtick: "newline \<noteq> backtick"
  by (simp add: newline_def backtick_def)

lemma is_word_not_space: "is_word c \<Longrightarrow> \<not> is_space c"
  by (auto simp: is_word_def is_space_def is_lower_alnum_def code_unit_def)

lemma not_is_word_newline: "\<not> is_word newline"
  by (simp add: is_word_def is_lower_alnum_def code_unit_def newline_def)

lemma trim_words: "\<forall>c \<in> set s. is_word c \<Longrightarrow> trim s = s"
proof (cases s rule: rev_cases)
  case Nil
  then show ?thesis by (simp add: trim_def)
next
  case (snoc ys y)
  assume w: "\<forall>c \<in> set s. is_word c"
  from snoc w have "\<not> is_space y" by (simp add: is_word_not_space)
  moreover have "dropWhile is_space s = s"
    using w by (cases s) (auto simp: is_word_not_space)
  ultimately show ?thesis using snoc by (simp add: trim_def)
qed

lemma split_fence_decompose:
  "split_fence t = Some (b, a) \<Longrightarrow> t = b @ fence @ a"
proof (induction t arbitrary: b)
  case Nil
  then show ?case by simp
next
  case (Cons c cs)
  show ?case
  proof (cases "prefix fence (c # cs)")
    case True
    with Cons.prems have ba: "b = []" "a = drop 3 (c # cs)" by auto
    from True obtain zs where zs: "c # cs = fence @ zs" by (auto simp: prefix_def)
    then have "drop 3 (c # cs) = zs" by (simp add: fence_def)
    with ba zs show ?thesis by simp
  next
    case False
    with Cons.prems obtain b' where b': "split_fence cs = Some (b', a)" "b = c # b'"
      by (auto split: prod.splits)
    from Cons.IH[OF b'(1)] b'(2) show ?thesis by simp
  qed
qed

lemma prefix_fence_long:
  assumes "3 \<le> length ys"
  shows "prefix fence (ys @ zs) = prefix fence ys"
proof
  assume "prefix fence (ys @ zs)"
  then obtain w where "ys @ zs = fence @ w" by (auto simp: prefix_def)
  then have "take 3 (ys @ zs) = take 3 (fence @ w)" by (rule arg_cong)
  also have "\<dots> = fence" by (simp add: fence_def)
  finally have "take 3 ys = fence" using assms by simp
  then show "prefix fence ys" by (metis take_is_prefix)
next
  assume "prefix fence ys"
  then show "prefix fence (ys @ zs)" by (rule prefix_prefix)
qed

lemma split_fence_here: "split_fence (fence @ a) = Some ([], a)"
  by (simp add: fence_def)

lemma fence_free_Nil: "fence_free []"
  by (simp add: fence_free_def fence_def)

lemma fence_free_Cons:
  "fence_free (c # b) \<longleftrightarrow> \<not> prefix fence (c # b @ fence) \<and> fence_free b"
  by (auto simp: fence_free_def fence_def split: prod.splits)

lemma split_fence_fence_free:
  "fence_free b \<Longrightarrow> split_fence (b @ fence @ a) = Some (b, a)"
proof (induction b)
  case Nil
  then show ?case by (simp add: split_fence_here)
next
  case (Cons c b)
  from Cons.prems have np: "\<not> prefix fence (c # b @ fence)" and fb: "fence_free b"
    by (simp_all add: fence_free_Cons)
  have "prefix fence ((c # b @ fence) @ a) = prefix fence (c # b @ fence)"
    by (rule prefix_fence_long) (simp add: fence_def)
  with np have "\<not> prefix fence (c # b @ fence @ a)" by simp
  with Cons.IH[OF fb] show ?case by simp
qed

lemma fence_free_split:
  "split_fence t = Some (b, a) \<Longrightarrow> fence_free b"
proof (induction t arbitrary: b)
  case Nil
  then show ?case by simp
next
  case (Cons c cs)
  show ?case
  proof (cases "prefix fence (c # cs)")
    case True
    with Cons.prems show ?thesis by (auto simp: fence_free_Nil)
  next
    case False
    with Cons.prems obtain b' where b': "split_fence cs = Some (b', a)" "b = c # b'"
      by (auto split: prod.splits)
    from split_fence_decompose[OF b'(1)] have cs: "cs = b' @ fence @ a" .
    have "prefix fence ((c # b' @ fence) @ a) = prefix fence (c # b' @ fence)"
      by (rule prefix_fence_long) (simp add: fence_def)
    with False cs have "\<not> prefix fence (c # b' @ fence)" by simp
    with Cons.IH[OF b'(1)] b'(2) show ?thesis by (simp add: fence_free_Cons)
  qed
qed

lemma fence_free_newline_Cons: "fence_free (newline # b) = fence_free b"
  using newline_not_backtick by (simp add: fence_free_Cons fence_def)

lemma fence_free_snoc_newline: "fence_free b \<Longrightarrow> fence_free (b @ [newline])"
proof (induction b)
  case Nil
  then show ?case using newline_not_backtick by (simp add: fence_free_Cons fence_free_Nil fence_def)
next
  case (Cons c b)
  from Cons.prems have np: "\<not> prefix fence (c # b @ fence)" and fb: "fence_free b"
    by (simp_all add: fence_free_Cons)
  have "\<not> prefix fence (c # (b @ [newline]) @ fence)"
    using np newline_not_backtick
    by (cases b; cases "tl b") (auto simp: fence_def)
  with Cons.IH[OF fb] show ?case by (simp add: fence_free_Cons)
qed


lemma normalize_block_fixed:
  fixes language code :: string
  assumes "\<forall>c \<in> set language. is_word c"
  defines "code1 \<equiv> (if prefix [newline] code then drop 1 code else code)"
  defines "code2 \<equiv> (if suffix [newline] code1 then take (length code1 - 1) code1 else code1)"
  shows "normalize_block language code = fence @ language @ [newline] @ code2 @ [newline] @ fence"
    and "normalize_block language (newline # code2 @ [newline]) = normalize_block language code"
    and "fence_free code \<Longrightarrow> fence_free (newline # code2 @ [newline])"
proof -
  show n: "normalize_block language code = fence @ language @ [newline] @ code2 @ [newline] @ fence"
    using assms(1) by (simp add: normalize_block_def code1_def code2_def Let_def trim_words)
  have "normalize_block language (newline # code2 @ [newline])
      = fence @ language @ [newline] @ code2 @ [newline] @ fence"
    using assms(1) by (simp add: normalize_block_def Let_def trim_words)
  with n show "normalize_block language (newline # code2 @ [newline]) = normalize_block language code"
    by simp
  assume ff: "fence_free code"
  have f1: "fence_free code1"
  proof (cases "prefix [newline] code")
    case True
    then obtain r where "code = newline # r" by (auto simp: prefix_def)
    with ff show ?thesis by (simp add: code1_def fence_free_newline_Cons)
  next
    case False
    with ff show ?thesis by (simp add: code1_def)
  qed
  have "fence_free (code2 @ [newline])"
  proof (cases "suffix [newline] code1")
    case True
    then obtain r where r: "code1 = r @ [newline]" by (auto simp: suffix_def)
    then have "code2 = r" by (simp add: code2_def)
    with f1 r show ?thesis by simp
  next
    case False
    then have "code2 = code1" by (simp add: code2_def)
    with f1 show ?thesis by (simp add: fence_free_snoc_newline)
  qed
  then show "fence_free (newline # code2 @ [newline])"
    by (simp add: fence_free_newline_Cons)
qed

lemma replace_blocks_idem: "replace_blocks (replace_blocks t) = replace_blocks t"
proof (induction t rule: replace_blocks.induct)
  case (1 t)
  show ?case
  proof (cases "split_fence t")
    case None
    then show ?thesis by (simp add: replace_blocks.simps[of t])
  next
    case (Some ba)
    obtain before after where ba: "ba = (before, after)" by (cases ba)
    let ?lang = "takeWhile is_word after"
    show ?thesis
    proof (cases "split_fence (dropWhile is_word after)")
      case None
      with Some ba show ?thesis by (simp add: replace_blocks.simps[of t])
    next
      case inner: (Some cr)
      obtain code rest where cr: "cr = (code, rest)" by (cases cr)
      define code1 where "code1 = (if prefix [newline] code then drop 1 code else code)"
      define code2 where
        "code2 = (if suffix [newline] code1 then take (length code1 - 1) code1 else code1)"
      define R where "R = replace_blocks rest"
      have words: "\<forall>c \<in> set ?lang. is_word c"
        by (auto dest: set_takeWhileD)
      have ih: "replace_blocks R = R"
        unfolding R_def by (rule "1.IH"[OF Some ba[symmetric] inner cr[symmetric]])
      have res: "replace_blocks t = before @ normalize_block ?lang code @ R"
        using Some ba inner cr by (simp add: replace_blocks.simps[of t] R_def)
      have blk: "normalize_block ?lang code = fence @ ?lang @ [newline] @ code2 @ [newline] @ fence"
        unfolding code2_def code1_def by (rule normalize_block_fixed(1)[OF words])
      let ?after' = "?lang @ newline # code2 @ [newline] @ fence @ R"
      have shape: "replace_blocks t = before @ fence @ ?after'"
        by (simp add: res blk)
      have "fence_free before" using Some ba by (auto dest: fence_free_split)
      then have s1: "split_fence (before @ fence @ ?after') = Some (before, ?after')"
        by (rule split_fence_fence_free)
      have tw: "takeWhile is_word ?after' = ?lang"
        using words not_is_word_newline by (simp add: takeWhile_append2)
      have dw: "dropWhile is_word ?after' = (newline # code2 @ [newline]) @ fence @ R"
        using words not_is_word_newline by (simp add: dropWhile_append2)
      have "fence_free code" using inner cr by (auto dest: fence_free_split)
      then have "fence_free (newline # code2 @ [newline])"
        unfolding code2_def code1_def by (rule normalize_block_fixed(3)[OF words])
      then have s2: "split_fence ((newline # code2 @ [newline]) @ fence @ R)
          = Some (newline # code2 @ [newline], R)"
        by (rule split_fence_fence_free)
      have same: "normalize_block ?lang (newline # code2 @ [newline]) = normalize_block ?lang code"
        unfolding code2_def code1_def by (rule normalize_block_fixed(2)[OF words])
      have "replace_blocks (before @ fence @ ?after')
          = before @ normalize_block ?lang (newline # code2 @ [newline]) @ replace_blocks R"
        by (simp only: replace_blocks.simps[of "before @ fence @ ?after'"] s1 option.case
            prod.case tw dw s2)
      then show ?thesis by (simp add: shape same ih blk)
    qed
  qed
qed

text \<open>
  C7. Normalizing the code blocks of a text twice gives what normalizing them once gives:
  each block is written back as the fence, its tag, a newline, the code without one leading
  and one trailing newline, a newline and the fence, and that form is kept as it is.
\<close>

theorem processText_idempotent:
  "processText (processText t) = processText t
   \<and> normalize_block language (newline # code @ [newline])
       = fence @ trim language @ [newline] @ code @ [newline] @ fence"
  by (simp add: processText_def replace_blocks_idem normalize_block_def)

section \<open>The rendering phase\<close>

lemma findIndex_own:
  assumes "distinct (uuids s)" "i < length s" "primitive (get (s ! i) ''uuid'')"
  shows "findIndex (has_uuid (get (s ! i) ''uuid'')) s = Some i"
proof (rule findIndex_first)
  show "i < length s" by fact
  show "has_uuid (get (s ! i) ''uuid'') (s ! i)"
    using assms(3) by (simp add: has_uuid_def strict_eq_primitive)
  show "\<forall>j<i. \<not> has_uuid (get (s ! i) ''uuid'') (s ! j)"
  proof (intro allI impI notI)
    fix j
    assume j: "j < i" and hit: "has_uuid (get (s ! i) ''uuid'') (s ! j)"
    from hit assms(3) have "get (s ! j) ''uuid'' = get (s ! i) ''uuid''"
      by (simp add: has_uuid_def strict_eq_primitive)
    then have "uuids s ! j = uuids s ! i"
      using j assms(2) by (simp add: uuids_def)
    moreover have "j < length (uuids s)" "i < length (uuids s)"
      using j assms(2) by (simp_all add: uuids_def)
    ultimately have "j = i"
      using assms(1) by (simp add: nth_eq_iff_index_eq)
    with j show False by simp
  qed
qed

lemma get_uuid_rendered:
  "get (rendered rt force outputDir c) ''uuid'' = get c ''uuid''"
  by (simp add: rendered_def get_def map_of_spread_other split: sum.splits)

lemma renderConversation_db:
  assumes "distinct (uuids (db st))" "i < length (db st)"
    and "primitive (get (db st ! i) ''uuid'')"
  shows "db (renderConversation rt force outputDir st (db st ! i))
       = (db st)[i := rendered rt force outputDir (db st ! i)]"
proof -
  have "fst (update_item (db st) (get (db st ! i) ''uuid'') upd)
      = (db st)[i := spread (db st ! i) upd]" for upd
    using findIndex_own[OF assms] by (simp add: update_item_def Let_def)
  then show ?thesis
    by (simp add: renderConversation_def rendered_def split: sum.splits)
qed

lemma uuids_list_update_rendered:
  "i < length s \<Longrightarrow> uuids (s[i := rendered rt force outputDir (s ! i)]) = uuids s"
  by (simp add: uuids_def map_update get_uuid_rendered list_update_same_conv)

lemma render_from_db:
  assumes "distinct (uuids (db st))" "\<forall>u \<in> set (uuids (db st)). primitive u"
  shows "db (render_from rt force outputDir i st)
       = take i (db st) @ map (rendered rt force outputDir) (drop i (db st))"
  using assms
proof (induction rt force outputDir i st rule: render_from.induct)
  case (1 rt force outputDir i st)
  show ?case
  proof (cases "i < length (db st)")
    case False
    then show ?thesis by (simp add: render_from.simps[of rt force outputDir i st])
  next
    case True
    let ?st' = "renderConversation rt force outputDir st (db st ! i)"
    from True "1.prems"(2) have prim: "primitive (get (db st ! i) ''uuid'')"
      by (simp add: uuids_def)
    have db': "db ?st' = (db st)[i := rendered rt force outputDir (db st ! i)]"
      by (rule renderConversation_db[OF "1.prems"(1) True prim])
    have u': "uuids (db ?st') = uuids (db st)"
      using True by (simp add: db' uuids_list_update_rendered)
    have "db (render_from rt force outputDir (Suc i) ?st')
        = take (Suc i) (db ?st') @ map (rendered rt force outputDir) (drop (Suc i) (db ?st'))"
      using "1.IH"[OF True] "1.prems" by (simp add: u')
    also have "\<dots> = take i (db st) @ rendered rt force outputDir (db st ! i)
                   # map (rendered rt force outputDir) (drop (Suc i) (db st))"
      using True by (simp add: db' take_Suc_conv_app_nth)
    also have "\<dots> = take i (db st) @ map (rendered rt force outputDir) (drop i (db st))"
      using True by (simp add: Cons_nth_drop_Suc[symmetric])
    finally show ?thesis using True
      by (simp add: render_from.simps[of rt force outputDir i st])
  qed
qed

lemma generateMarkdownFiles_db:
  assumes "distinct (uuids s)" "\<forall>u \<in> set (uuids s). primitive u"
  shows "db (generateMarkdownFiles rt force outputDir s) = map (rendered rt force outputDir) s"
  using render_from_db[of "\<lparr>db = s, generatedCount = 0, skippedCount_r = 0\<rparr>" rt force outputDir 0]
    assms
  by (simp add: generateMarkdownFiles_def)

text \<open>
  C10. In a collection with pairwise-distinct primitive \<open>uuid\<close> values, a conversation whose
  markdown generation throws is left by the rendering phase exactly as it was stored: neither
  \<open>processed\<close> nor \<open>markdownPath\<close> is written, so the next run with the same \<open>force\<close> does not
  skip it. The loop goes on: every record ends as its own rendering leaves it, whatever
  happened to the others.
\<close>

theorem failed_generation_keeps_record:
  assumes "distinct (uuids s)" and "\<forall>u \<in> set (uuids s). primitive u"
    and "i < length s" and "\<not> render_skip force (s ! i)"
    and "generate rt (s ! i) = Inl e"
  shows "db (generateMarkdownFiles rt force outputDir s) ! i = s ! i
       \<and> \<not> render_skip force (db (generateMarkdownFiles rt force outputDir s) ! i)
       \<and> length (db (generateMarkdownFiles rt force outputDir s)) = length s
       \<and> (\<forall>j < length s.
            db (generateMarkdownFiles rt force outputDir s) ! j
              = rendered rt force outputDir (s ! j))"
proof -
  have all: "db (generateMarkdownFiles rt force outputDir s) = map (rendered rt force outputDir) s"
    by (rule generateMarkdownFiles_db[OF assms(1,2)])
  have "rendered rt force outputDir (s ! i) = s ! i"
    using assms(5) by (simp add: rendered_def write_markdown_def)
  with all assms(3,4) show ?thesis by simp
qed

theorem failed_generation_keeps_record_witness:
  "distinct (uuids [[(''uuid'', JStr ''u1''), (''name'', JNum 5)],
                    [(''uuid'', JStr ''u2''), (''name'', JStr ''a b'')]])
   \<and> list_all primitive (uuids [[(''uuid'', JStr ''u1''), (''name'', JNum 5)],
                                  [(''uuid'', JStr ''u2''), (''name'', JStr ''a b'')]])
   \<and> \<not> render_skip False ([[(''uuid'', JStr ''u1''), (''name'', JNum 5)],
                              [(''uuid'', JStr ''u2''), (''name'', JStr ''a b'')]] ! 0)
   \<and> generate example_runtime ([[(''uuid'', JStr ''u1''), (''name'', JNum 5)],
                                 [(''uuid'', JStr ''u2''), (''name'', JStr ''a b'')]] ! 0)
       = Inl (Error ''Failed to generate markdown: conversation.name.trim is not a function'')
   \<and> db (generateMarkdownFiles example_runtime False ''out''
            [[(''uuid'', JStr ''u1''), (''name'', JNum 5)],
             [(''uuid'', JStr ''u2''), (''name'', JStr ''a b'')]]) ! 0
       = [(''uuid'', JStr ''u1''), (''name'', JNum 5)]"
proof -
  have g: "generate example_runtime [(''uuid'', JStr ''u1''), (''name'', JNum 5)]
      = Inl (Error ''Failed to generate markdown: conversation.name.trim is not a function'')"
    by (simp add: generate_def getTitle_def get_def Let_def)
  have d: "distinct (uuids [[(''uuid'', JStr ''u1''), (''name'', JNum 5)],
                            [(''uuid'', JStr ''u2''), (''name'', JStr ''a b'')]])"
    by (simp add: uuids_def get_def)
  have p: "\<forall>u \<in> set (uuids [[(''uuid'', JStr ''u1''), (''name'', JNum 5)],
                                 [(''uuid'', JStr ''u2''), (''name'', JStr ''a b'')]]). primitive u"
    by (simp add: uuids_def get_def)
  have k: "\<not> render_skip False [(''uuid'', JStr ''u1''), (''name'', JNum 5)]"
    by (simp add: render_skip_def get_def)
  show ?thesis
    using failed_generation_keeps_record [OF d p, of 0 False example_runtime
        "Error ''Failed to generate markdown: conversation.name.trim is not a function''" "''out''"]
      g d p k
    by (simp add: list_all_iff)
qed

text \<open>
  C2 at a concrete input. A stored conversation was rendered (\<open>processed\<close> is \<open>true\<close> and it
  has a \<open>markdownPath\<close>); the export brings it again with a later \<open>updated_at\<close> and a new
  name. The sync upserts it, and the merge keeps \<open>processed\<close> and \<open>markdownPath\<close> of the stored
  record; the rendering phase then skips it, so the document written for the old content
  stays.
\<close>

theorem changed_conversation_not_rendered:
  "storeConversation False
     \<lparr>db_conversations = [[(''uuid'', JStr ''u1''), (''name'', JStr ''old''),
                         (''updated_at'', JStr ''2025-01-01T12:30:00Z''),
                         (''processed'', JBool True),
                         (''markdownPath'', JStr ''out/20250101_120000_old.md'')]],
      processedCount = 0, skippedCount = 0\<rparr>
     (JObj [(''uuid'', JStr ''u1''), (''name'', JStr ''new''),
            (''updated_at'', JStr ''2025-02-02T08:00:00Z'')])
   = \<lparr>db_conversations = [[(''uuid'', JStr ''u1''), (''name'', JStr ''new''),
                          (''updated_at'', JStr ''2025-02-02T08:00:00Z''),
                          (''processed'', JBool True),
                          (''markdownPath'', JStr ''out/20250101_120000_old.md'')]],
       processedCount = 1, skippedCount = 0\<rparr>
   \<and> generateMarkdownFiles rt False outputDir
        [[(''uuid'', JStr ''u1''), (''name'', JStr ''new''),
          (''updated_at'', JStr ''2025-02-02T08:00:00Z''),
          (''processed'', JBool True),
          (''markdownPath'', JStr ''out/20250101_120000_old.md'')]]
     = \<lparr>db = [[(''uuid'', JStr ''u1''), (''name'', JStr ''new''),
                 (''updated_at'', JStr ''2025-02-02T08:00:00Z''),
                 (''processed'', JBool True),
                 (''markdownPath'', JStr ''out/20250101_120000_old.md'')]],
         generatedCount = 0, skippedCount_r = 1\<rparr>"
proof -
  have "render_from rt False outputDir (Suc 0)
          \<lparr>db = [[(''uuid'', JStr ''u1''), (''name'', JStr ''new''),
                 (''updated_at'', JStr ''2025-02-02T08:00:00Z''),
                 (''processed'', JBool True),
                 (''markdownPath'', JStr ''out/20250101_120000_old.md'')]],
           generatedCount = 0, skippedCount_r = Suc 0\<rparr>
      = \<lparr>db = [[(''uuid'', JStr ''u1''), (''name'', JStr ''new''),
                 (''updated_at'', JStr ''2025-02-02T08:00:00Z''),
                 (''processed'', JBool True),
                 (''markdownPath'', JStr ''out/20250101_120000_old.md'')]],
           generatedCount = 0, skippedCount_r = Suc 0\<rparr>"
    by (subst render_from.simps) simp
  then have "generateMarkdownFiles rt False outputDir
        [[(''uuid'', JStr ''u1''), (''name'', JStr ''new''),
          (''updated_at'', JStr ''2025-02-02T08:00:00Z''),
          (''processed'', JBool True),
          (''markdownPath'', JStr ''out/20250101_120000_old.md'')]]
     = \<lparr>db = [[(''uuid'', JStr ''u1''), (''name'', JStr ''new''),
                 (''updated_at'', JStr ''2025-02-02T08:00:00Z''),
                 (''processed'', JBool True),
                 (''markdownPath'', JStr ''out/20250101_120000_old.md'')]],
         generatedCount = 0, skippedCount_r = 1\<rparr>"
    unfolding generateMarkdownFiles_def
    by (subst render_from.simps) (simp add: renderConversation_def render_skip_def get_def)
  moreover have "storeConversation False
     \<lparr>db_conversations = [[(''uuid'', JStr ''u1''), (''name'', JStr ''old''),
                         (''updated_at'', JStr ''2025-01-01T12:30:00Z''),
                         (''processed'', JBool True),
                         (''markdownPath'', JStr ''out/20250101_120000_old.md'')]],
      processedCount = 0, skippedCount = 0\<rparr>
     (JObj [(''uuid'', JStr ''u1''), (''name'', JStr ''new''),
            (''updated_at'', JStr ''2025-02-02T08:00:00Z'')])
   = \<lparr>db_conversations = [[(''uuid'', JStr ''u1''), (''name'', JStr ''new''),
                          (''updated_at'', JStr ''2025-02-02T08:00:00Z''),
                          (''processed'', JBool True),
                          (''markdownPath'', JStr ''out/20250101_120000_old.md'')]],
       processedCount = 1, skippedCount = 0\<rparr>"
    by (simp add: storeConversation_def shouldProcess_def get_def findByUuid_def has_uuid_def
        upsert_def exists_item_def update_item_def spread_def Let_def)
  ultimately show ?thesis by simp
qed

theorem changed_conversation_not_rendered_witness:
  "generateMarkdownFiles example_runtime False ''out''
     (db_conversations (storeConversation False
        \<lparr>db_conversations = [[(''uuid'', JStr ''u1''), (''name'', JStr ''old''),
                            (''updated_at'', JStr ''2025-01-01T12:30:00Z''),
                            (''processed'', JBool True),
                            (''markdownPath'', JStr ''out/20250101_120000_old.md'')]],
         processedCount = 0, skippedCount = 0\<rparr>
        (JObj [(''uuid'', JStr ''u1''), (''name'', JStr ''new''),
               (''updated_at'', JStr ''2025-02-02T08:00:00Z'')])))
   = \<lparr>db = [[(''uuid'', JStr ''u1''), (''name'', JStr ''new''),
               (''updated_at'', JStr ''2025-02-02T08:00:00Z''),
               (''processed'', JBool True),
               (''markdownPath'', JStr ''out/20250101_120000_old.md'')]],
       generatedCount = 0, skippedCount_r = 1\<rparr>"
  using changed_conversation_not_rendered [of example_runtime "''out''"]
  by simp

section \<open>Archive processing\<close>

lemma fold_push: "fold (\<lambda>v acc. acc @ [v]) xs acc = acc @ xs"
  by (induction xs arbitrary: acc) auto

lemma find_entry_None:
  "find_entry fragment names = None \<longleftrightarrow> (\<forall>n \<in> set names. \<not> includes_str n fragment)"
  by (auto simp: find_entry_def find_None_iff)

lemma process_missing:
  assumes "find_entry ''conversations.json'' (entryNames a) = None"
  shows "process (Readable a)
       = Some (Inl (Error ''Failed to process zip file: Missing conversations.json file in the zip archive''))"
  using assms by (simp add: process_def process_body_def)

lemma process_missing_only:
  assumes "library_message zf \<noteq> Some ''Missing conversations.json file in the zip archive''"
    and "process zf
       = Some (Inl (Error ''Failed to process zip file: Missing conversations.json file in the zip archive''))"
  shows "\<exists>a. zf = Readable a \<and> find_entry ''conversations.json'' (entryNames a) = None"
proof (cases zf)
  case (Corrupt m)
  with assms show ?thesis
    by (simp add: process_def process_body_def library_message_def)
next
  case (Readable a)
  show ?thesis
  proof (cases "find_entry ''conversations.json'' (entryNames a)")
    case None
    with Readable show ?thesis by simp
  next
    case (Some c)
    show ?thesis
    proof (cases "extract_error a")
      case (Some m)
      with assms Readable \<open>find_entry ''conversations.json'' (entryNames a) = Some c\<close>
      show ?thesis
        by (simp add: process_def process_body_def library_message_def)
    next
      case None
      with assms(2) Readable \<open>find_entry ''conversations.json'' (entryNames a) = Some c\<close>
      show ?thesis
        by (auto simp: process_def process_body_def processConversationsFile_def Let_def
            split: option.splits sum.splits file_content.splits jsval.splits)
    qed
  qed
qed

lemma missing_message_names_file:
  "includes_str ''Failed to process zip file: Missing conversations.json file in the zip archive''
     ''Missing conversations.json''"
  by code_simp

text \<open>
  C5. When no entry name of a readable archive contains \<open>conversations.json\<close>, \<open>process\<close> fails
  with the error message \<open>Failed to process zip file: Missing conversations.json file in the zip
  archive\<close>. No other failure of \<open>process\<close> carries that message, as long as the zip library's
  own error messages are not that very text: the messages the code writes itself for a read
  or a parse failure start differently.
\<close>

theorem missing_conversations_file:
  "(find_entry ''conversations.json'' (entryNames a) = None \<longrightarrow>
      process (Readable a) = Some (Inl (Error ''Failed to process zip file: Missing conversations.json file in the zip archive'')))
   \<and> includes_str ''Failed to process zip file: Missing conversations.json file in the zip archive''
         ''Missing conversations.json''
   \<and> (library_message zf \<noteq> Some ''Missing conversations.json file in the zip archive'' \<longrightarrow>
        (process zf = Some (Inl (Error ''Failed to process zip file: Missing conversations.json file in the zip archive''))
         \<longleftrightarrow> (\<exists>b. zf = Readable b \<and> find_entry ''conversations.json'' (entryNames b) = None)))
   \<and> (find_entry fragment names = None
        \<longleftrightarrow> (\<forall>n \<in> set names. \<not> includes_str n fragment))"
proof (intro conjI impI)
  assume "find_entry ''conversations.json'' (entryNames a) = None"
  then show "process (Readable a) = Some (Inl (Error ''Failed to process zip file: Missing conversations.json file in the zip archive''))"
    by (rule process_missing)
next
  show "includes_str ''Failed to process zip file: Missing conversations.json file in the zip archive''
         ''Missing conversations.json''"
    by (rule missing_message_names_file)
next
  assume lib: "library_message zf \<noteq> Some ''Missing conversations.json file in the zip archive''"
  show "process zf = Some (Inl (Error ''Failed to process zip file: Missing conversations.json file in the zip archive''))
         \<longleftrightarrow> (\<exists>b. zf = Readable b \<and> find_entry ''conversations.json'' (entryNames b) = None)"
    using process_missing_only[OF lib] process_missing by blast
next
  show "find_entry fragment names = None
        \<longleftrightarrow> (\<forall>n \<in> set names. \<not> includes_str n fragment)"
    by (rule find_entry_None)
qed

theorem missing_conversations_file_witness:
  "find_entry ''conversations.json''
      (entryNames \<lparr>entryNames = [''users.json''], extract_error = None, file_at = (\<lambda>n. Json (JArr []))\<rparr>) = None
   \<and> library_message (Readable \<lparr>entryNames = [''users.json''], extract_error = None, file_at = (\<lambda>n. Json (JArr []))\<rparr>)
       \<noteq> Some ''Missing conversations.json file in the zip archive''
   \<and> process (Readable \<lparr>entryNames = [''users.json''], extract_error = None, file_at = (\<lambda>n. Json (JArr []))\<rparr>)
       = Some (Inl (Error ''Failed to process zip file: Missing conversations.json file in the zip archive''))"
proof -
  have n: "find_entry ''conversations.json''
      (entryNames \<lparr>entryNames = [''users.json''], extract_error = None, file_at = (\<lambda>n. Json (JArr []))\<rparr>) = None"
    by (simp add: find_entry_def includes_str_def sublist_code)
  have l: "library_message (Readable \<lparr>entryNames = [''users.json''], extract_error = None, file_at = (\<lambda>n. Json (JArr []))\<rparr>)
       \<noteq> Some ''Missing conversations.json file in the zip archive''"
    by (simp add: library_message_def)
  from n l show ?thesis
    using missing_conversations_file [of "\<lparr>entryNames = [''users.json''], extract_error = None, file_at = (\<lambda>n. Json (JArr []))\<rparr>"
        "Readable \<lparr>entryNames = [''users.json''], extract_error = None, file_at = (\<lambda>n. Json (JArr []))\<rparr>"]
    by simp
qed

text \<open>
  C6. A readable archive with an entry for the conversations and none for the users and the
  projects, whose conversations file holds an array, is processed without error: the result
  has the elements of that array as its conversations, and no users and no projects.
\<close>

theorem conversations_only_archive:
  assumes "find_entry ''conversations.json'' (entryNames a) = Some c"
    and "find_entry ''users.json'' (entryNames a) = None"
    and "find_entry ''projects.json'' (entryNames a) = None"
    and "extract_error a = None"
    and "file_at a c = Json (JArr xs)"
  shows "process (Readable a) = Some (Inr \<lparr>users = [], projects = [], conversations = xs\<rparr>)"
  using assms
  by (simp add: process_def process_body_def processConversationsFile_def fold_push)

theorem conversations_only_archive_witness:
  "find_entry ''conversations.json''
     (entryNames \<lparr>entryNames = [''export/conversations.json''], extract_error = None,
        file_at = (\<lambda>n. Json (JArr [JObj [(''uuid'', JStr ''test-uuid-1'')]]))\<rparr>) = Some ''export/conversations.json''
   \<and> find_entry ''users.json''
     (entryNames \<lparr>entryNames = [''export/conversations.json''], extract_error = None,
        file_at = (\<lambda>n. Json (JArr [JObj [(''uuid'', JStr ''test-uuid-1'')]]))\<rparr>) = None
   \<and> find_entry ''projects.json''
     (entryNames \<lparr>entryNames = [''export/conversations.json''], extract_error = None,
        file_at = (\<lambda>n. Json (JArr [JObj [(''uuid'', JStr ''test-uuid-1'')]]))\<rparr>) = None
   \<and> process (Readable \<lparr>entryNames = [''export/conversations.json''], extract_error = None,
        file_at = (\<lambda>n. Json (JArr [JObj [(''uuid'', JStr ''test-uuid-1'')]]))\<rparr>)
     = Some (Inr \<lparr>users = [], projects = [],
                    conversations = [JObj [(''uuid'', JStr ''test-uuid-1'')]]\<rparr>)"
proof -
  have c: "find_entry ''conversations.json''
     (entryNames \<lparr>entryNames = [''export/conversations.json''], extract_error = None,
        file_at = (\<lambda>n. Json (JArr [JObj [(''uuid'', JStr ''test-uuid-1'')]]))\<rparr>) = Some ''export/conversations.json''"
    by (simp add: find_entry_def includes_str_def sublist_code)
  have u: "find_entry ''users.json''
     (entryNames \<lparr>entryNames = [''export/conversations.json''], extract_error = None,
        file_at = (\<lambda>n. Json (JArr [JObj [(''uuid'', JStr ''test-uuid-1'')]]))\<rparr>) = None"
    by (simp add: find_entry_def includes_str_def sublist_code)
  have p: "find_entry ''projects.json''
     (entryNames \<lparr>entryNames = [''export/conversations.json''], extract_error = None,
        file_at = (\<lambda>n. Json (JArr [JObj [(''uuid'', JStr ''test-uuid-1'')]]))\<rparr>) = None"
    by (simp add: find_entry_def includes_str_def sublist_code)
  from c u p show ?thesis
    using conversations_only_archive [OF c u p, of "[JObj [(''uuid'', JStr ''test-uuid-1'')]]"]
    by simp
qed

section \<open>File names\<close>

lemma digit_char_in: "digit_char n \<in> set ''0123456789''"
  unfolding digit_char_def by (rule nth_mem) simp

lemma digit_char_plain:
  "digit_char n \<noteq> hyphen" "digit_char n \<noteq> CHR '':''" "digit_char n \<noteq> CHR ''T''"
  "hyphen \<noteq> digit_char n" "CHR '':'' \<noteq> digit_char n" "CHR ''T'' \<noteq> digit_char n"
  using digit_char_in[of n] by (auto simp: hyphen_def)

lemma set_hyphenate: "c \<in> set (hyphenate s) \<Longrightarrow> is_lower_alnum c \<or> c = hyphen"
proof (induction s rule: hyphenate.induct)
  case 1
  then show ?case by simp
next
  case (2 x xs)
  then show ?case by (auto split: if_splits)
qed

lemma set_strip_hyphens: "set (strip_hyphens s) \<subseteq> set s"
proof -
  have "set (strip_hyphens s) = set (dropWhile (\<lambda>x. x = hyphen) (rev (dropWhile (\<lambda>x. x = hyphen) s)))"
    by (simp add: strip_hyphens_def)
  also have "\<dots> \<subseteq> set (rev (dropWhile (\<lambda>x. x = hyphen) s))"
    by (rule set_dropWhileD[THEN subsetI])
  also have "\<dots> \<subseteq> set s"
    by (auto dest: set_dropWhileD)
  finally show ?thesis .
qed

lemma slugify_chars: "c \<in> set (slugify n) \<Longrightarrow> is_lower_alnum c \<or> c = hyphen"
proof -
  assume "c \<in> set (slugify n)"
  then have "c \<in> set (strip_hyphens (hyphenate (toLowerCase n)))"
    by (auto simp: slugify_def dest: in_set_takeD)
  with set_strip_hyphens have "c \<in> set (hyphenate (toLowerCase n))" by blast
  then show ?thesis by (rule set_hyphenate)
qed

lemma hd_strip_hyphens: "strip_hyphens s \<noteq> [] \<Longrightarrow> hd (strip_hyphens s) \<noteq> hyphen"
proof -
  assume ne: "strip_hyphens s \<noteq> []"
  let ?a = "dropWhile (\<lambda>x. x = hyphen) s"
  have sh: "strip_hyphens s = rev (dropWhile (\<lambda>x. x = hyphen) (rev ?a))"
    by (simp add: strip_hyphens_def)
  have "prefix (strip_hyphens s) ?a"
  proof -
    have "suffix (dropWhile (\<lambda>x. x = hyphen) (rev ?a)) (rev ?a)"
      by (rule suffix_dropWhile)
    then have "prefix (rev (dropWhile (\<lambda>x. x = hyphen) (rev ?a))) (rev (rev ?a))"
      by (simp only: suffix_to_prefix rev_rev_ident)
    then show ?thesis by (simp add: sh)
  qed
  then obtain zs where zs: "?a = strip_hyphens s @ zs" by (auto simp: prefix_def)
  with ne have "hd (strip_hyphens s) = hd ?a" and "?a \<noteq> []"
    by (simp_all only: hd_append2[OF ne] append_is_Nil_conv simp_thms)
  moreover from \<open>?a \<noteq> []\<close> have "hd ?a \<noteq> hyphen"
    using hd_dropWhile[of "\<lambda>x. x = hyphen" s] by simp
  ultimately show ?thesis by simp
qed

lemma hd_slugify: "slugify n \<noteq> [] \<Longrightarrow> hd (slugify n) \<noteq> hyphen"
proof -
  assume ne: "slugify n \<noteq> []"
  let ?s = "strip_hyphens (hyphenate (toLowerCase n))"
  from ne have "?s \<noteq> []" by (auto simp: slugify_def)
  then have "hd ?s \<noteq> hyphen" by (rule hd_strip_hyphens)
  moreover have "hd (slugify n) = hd ?s"
    using \<open>?s \<noteq> []\<close> by (cases ?s) (simp_all add: slugify_def)
  ultimately show ?thesis by simp
qed

lemma not_alnum_hyphen: "\<not> is_lower_alnum hyphen"
  by (simp add: is_lower_alnum_def hyphen_def code_unit_def)

lemma filter_dropWhile_not: "filter P (dropWhile (\<lambda>x. \<not> P x) xs) = filter P xs"
  by (induction xs) auto

lemma filter_hyphenate: "filter is_lower_alnum (hyphenate s) = filter is_lower_alnum s"
proof (induction s rule: hyphenate.induct)
  case 1
  then show ?case by simp
next
  case (2 c cs)
  show ?case
  proof (cases "is_lower_alnum c")
    case True
    with 2 show ?thesis by simp
  next
    case False
    with 2 show ?thesis by (simp add: not_alnum_hyphen filter_dropWhile_not)
  qed
qed

lemma filter_dropWhile_hyphen:
  "filter is_lower_alnum (dropWhile (\<lambda>x. x = hyphen) xs) = filter is_lower_alnum xs"
  by (induction xs) (auto simp: not_alnum_hyphen)

lemma filter_strip_hyphens: "filter is_lower_alnum (strip_hyphens s) = filter is_lower_alnum s"
proof -
  have "filter is_lower_alnum (strip_hyphens s)
      = rev (filter is_lower_alnum (dropWhile (\<lambda>x. x = hyphen) (rev (dropWhile (\<lambda>x. x = hyphen) s))))"
    by (simp add: strip_hyphens_def rev_filter)
  also have "\<dots> = rev (filter is_lower_alnum (rev (dropWhile (\<lambda>x. x = hyphen) s)))"
    by (simp only: filter_dropWhile_hyphen)
  also have "\<dots> = filter is_lower_alnum (dropWhile (\<lambda>x. x = hyphen) s)"
    by (simp add: rev_filter)
  also have "\<dots> = filter is_lower_alnum s"
    by (rule filter_dropWhile_hyphen)
  finally show ?thesis .
qed


lemma replace_first_append:
  "c \<notin> set xs \<Longrightarrow> replace_first c d (xs @ c # ys) = xs @ d # ys"
  by (induction xs) auto

lemma two_digits_plain:
  "filter (\<lambda>c. c \<noteq> hyphen \<and> c \<noteq> CHR '':'') (two_digits n) = two_digits n"
  "CHR ''T'' \<notin> set (two_digits n)"
  "length (two_digits n) = 2"
  by (simp_all add: two_digits_def digit_char_plain)

lemma four_digits_plain:
  "filter (\<lambda>c. c \<noteq> hyphen \<and> c \<noteq> CHR '':'') (four_digits n) = four_digits n"
  "CHR ''T'' \<notin> set (four_digits n)"
  "length (four_digits n) = 4"
  by (simp_all add: four_digits_def two_digits_plain)

lemma three_digits_plain:
  "filter (\<lambda>c. c \<noteq> hyphen \<and> c \<noteq> CHR '':'') (three_digits n) = three_digits n"
  by (simp add: three_digits_def two_digits_plain digit_char_plain)

lemma hyphen_other:
  "CHR ''T'' \<noteq> hyphen" "CHR ''.'' \<noteq> hyphen" "CHR ''Z'' \<noteq> hyphen"
  by (simp_all add: hyphen_def)

lemma stamp_of_iso:
  assumes "0 \<le> year d" "year d \<le> 9999"
  shows "take 15 (replace_first (CHR ''T'') (CHR ''_'')
            (filter (\<lambda>c. c \<noteq> hyphen \<and> c \<noteq> CHR '':'') (toISOString d)))
       = four_digits (nat (year d)) @ two_digits (month d) @ two_digits (day d) @ ''_''
         @ two_digits (hours d) @ two_digits (minutes d) @ two_digits (seconds d)"
proof -
  let ?keep = "\<lambda>c. c \<noteq> hyphen \<and> c \<noteq> CHR '':''"
  let ?date = "four_digits (nat (year d)) @ two_digits (month d) @ two_digits (day d)"
  let ?time = "two_digits (hours d) @ two_digits (minutes d) @ two_digits (seconds d)"
  let ?tail = "CHR ''.'' # three_digits (milliseconds d) @ ''Z''"
  have iso: "toISOString d
      = four_digits (nat (year d)) @ hyphen # two_digits (month d) @ hyphen # two_digits (day d)
        @ CHR ''T'' # two_digits (hours d) @ CHR '':'' # two_digits (minutes d)
        @ CHR '':'' # two_digits (seconds d) @ ?tail"
    using assms by (simp add: toISOString_def hyphen_def)
  have f: "filter ?keep (toISOString d) = ?date @ CHR ''T'' # (?time @ ?tail)"
    unfolding iso
    by (simp add: two_digits_plain four_digits_plain three_digits_plain hyphen_other)
  have nt: "CHR ''T'' \<notin> set ?date"
    by (simp add: two_digits_plain four_digits_plain)
  have "replace_first (CHR ''T'') (CHR ''_'') (?date @ CHR ''T'' # (?time @ ?tail))
      = ?date @ CHR ''_'' # (?time @ ?tail)"
    by (rule replace_first_append[OF nt])
  then have "replace_first (CHR ''T'') (CHR ''_'') (filter ?keep (toISOString d))
      = (?date @ CHR ''_'' # ?time) @ ?tail"
    by (simp only: f append_assoc append_Cons)
  moreover have "length (?date @ CHR ''_'' # ?time) = 15"
    by (simp add: two_digits_plain four_digits_plain)
  ultimately show ?thesis
    by (simp add: two_digits_plain four_digits_plain)
qed

lemma prefix_filter_take: "prefix (filter P (take k xs)) (filter P xs)"
proof -
  have "filter P xs = filter P (take k xs) @ filter P (drop k xs)"
    by (metis append_take_drop_id filter_append)
  then show ?thesis by (metis prefixI)
qed

lemma slug_letters:
  "prefix (filter is_lower_alnum (slugify n)) (filter is_lower_alnum (toLowerCase n))"
proof -
  have "prefix (filter is_lower_alnum (slugify n))
          (filter is_lower_alnum (strip_hyphens (hyphenate (toLowerCase n))))"
    unfolding slugify_def by (rule prefix_filter_take)
  then show ?thesis by (simp add: filter_strip_hyphens filter_hyphenate)
qed

lemma slugify_Nil: "slugify [] = []"
  by (simp add: slugify_def strip_hyphens_def toLowerCase_def)

lemma nameSlug_string:
  "nameSlug conversation
   = (case get conversation ''name'' of
        JStr n \<Rightarrow> Inr (if slugify n = [] then get conversation ''uuid'' else JStr (slugify n))
      | v \<Rightarrow> if truthy v then Inl (TypeError ''conversation.name.toLowerCase is not a function'')
             else Inr (get conversation ''uuid''))"
  by (cases "get conversation ''name''") (auto simp: nameSlug_def Let_def slugify_Nil)

text \<open>
  C8. The file name of a conversation is the time stamp \<open>YYYYMMDD_HHMMSS\<close> of \<open>created_at\<close> (of
  the current time when \<open>created_at\<close> is absent), an underscore, the slug of the name, and
  \<open>.md\<close>. The slug is the name in lower case with every run of characters other than
  \<open>a-z0-9\<close> turned into one hyphen, without hyphens at its start, cut at 50 characters; when
  there is no name or the slug is empty, the \<open>uuid\<close> stands in its place. The date is a valid
  one with a year from 0 to 9999, and the name, when there is one, is a string.
\<close>

theorem filename_shape:
  assumes "(if truthy (get c ''created_at'') then date_of rt (get c ''created_at'')
            else Some (now rt)) = Some d"
    and "0 \<le> year d" and "year d \<le> 9999"
    and "get c ''name'' = JStr n \<or> (\<not> truthy (get c ''name'') \<and> n = [])"
  shows "filename rt c
         = Inr (four_digits (nat (year d)) @ two_digits (month d) @ two_digits (day d) @ ''_''
                @ two_digits (hours d) @ two_digits (minutes d) @ two_digits (seconds d)
                @ ''_'' @ (if slugify n = [] then template rt (get c ''uuid'') else slugify n)
                @ ''.md'')
       \<and> length (slugify n) \<le> 50
       \<and> (\<forall>ch \<in> set (slugify n). is_lower_alnum ch \<or> ch = hyphen)
       \<and> (slugify n \<noteq> [] \<longrightarrow> hd (slugify n) \<noteq> hyphen)
       \<and> prefix (filter is_lower_alnum (slugify n)) (filter is_lower_alnum (toLowerCase n))
       \<and> (get c ''uuid'' = JStr u \<longrightarrow> template rt (get c ''uuid'') = u)"
proof -
  have ts: "timestamp rt c
      = Inr (four_digits (nat (year d)) @ two_digits (month d) @ two_digits (day d) @ ''_''
             @ two_digits (hours d) @ two_digits (minutes d) @ two_digits (seconds d))"
    using assms(1) by (simp add: timestamp_def Let_def stamp_of_iso[OF assms(2,3)])
  note empty = slugify_Nil
  have slug: "nameSlug c = Inr (if slugify n = [] then get c ''uuid'' else JStr (slugify n))"
  proof (cases "get c ''name'' = JStr n")
    case True
    then show ?thesis by (simp add: nameSlug_string)
  next
    case False
    with assms(4) have "\<not> truthy (get c ''name'')" "n = []" by auto
    then show ?thesis
      by (cases "get c ''name''") (simp_all add: nameSlug_string empty)
  qed
  have "filename rt c
         = Inr (four_digits (nat (year d)) @ two_digits (month d) @ two_digits (day d) @ ''_''
                @ two_digits (hours d) @ two_digits (minutes d) @ two_digits (seconds d)
                @ ''_'' @ (if slugify n = [] then template rt (get c ''uuid'') else slugify n)
                @ ''.md'')"
    by (simp add: filename_def ts slug template_def)
  moreover have "length (slugify n) \<le> 50" by (simp add: slugify_def)
  moreover have "\<forall>ch \<in> set (slugify n). is_lower_alnum ch \<or> ch = hyphen"
    by (auto dest: slugify_chars)
  moreover have "slugify n \<noteq> [] \<longrightarrow> hd (slugify n) \<noteq> hyphen"
    by (auto dest: hd_slugify)
  moreover have "get c ''uuid'' = JStr u \<longrightarrow> template rt (get c ''uuid'') = u"
    by (simp add: template_def)
  ultimately show ?thesis using slug_letters by blast
qed

lemma slugify_example: "slugify ''Test Project!!'' = ''test-project''"
  by code_simp

lemma stamp_example:
  "four_digits 2025 = ''2025''" "two_digits (Suc 0) = ''01''" "two_digits 12 = ''12''"
  "two_digits 0 = ''00''"
  by (simp_all add: four_digits_def two_digits_def digit_char_def)

theorem filename_shape_witness:
  "(if truthy (get [(''uuid'', JStr ''u1''), (''name'', JStr ''Test Project!!''),
      (''created_at'', JStr ''2025-01-01T12:00:00Z'')] ''created_at'')
    then date_of example_runtime (get [(''uuid'', JStr ''u1''), (''name'', JStr ''Test Project!!''),
      (''created_at'', JStr ''2025-01-01T12:00:00Z'')] ''created_at'')
    else Some (now example_runtime))
   = Some \<lparr>year = 2025, month = 1, day = 1, hours = 12, minutes = 0, seconds = 0, milliseconds = 0\<rparr>
   \<and> get [(''uuid'', JStr ''u1''), (''name'', JStr ''Test Project!!''),
      (''created_at'', JStr ''2025-01-01T12:00:00Z'')] ''name'' = JStr ''Test Project!!''
   \<and> filename example_runtime [(''uuid'', JStr ''u1''), (''name'', JStr ''Test Project!!''),
      (''created_at'', JStr ''2025-01-01T12:00:00Z'')]
     = Inr ''20250101_120000_test-project.md''"
proof -
  have d: "(if truthy (get [(''uuid'', JStr ''u1''), (''name'', JStr ''Test Project!!''),
      (''created_at'', JStr ''2025-01-01T12:00:00Z'')] ''created_at'')
    then date_of example_runtime (get [(''uuid'', JStr ''u1''), (''name'', JStr ''Test Project!!''),
      (''created_at'', JStr ''2025-01-01T12:00:00Z'')] ''created_at'')
    else Some (now example_runtime))
   = Some \<lparr>year = 2025, month = 1, day = 1, hours = 12, minutes = 0, seconds = 0, milliseconds = 0\<rparr>"
    by (simp add: get_def example_runtime_def)
  have n: "get [(''uuid'', JStr ''u1''), (''name'', JStr ''Test Project!!''),
      (''created_at'', JStr ''2025-01-01T12:00:00Z'')] ''name'' = JStr ''Test Project!!''"
    by (simp add: get_def)
  have y: "0 \<le> year \<lparr>year = 2025, month = 1, day = 1, hours = 12, minutes = 0, seconds = 0, milliseconds = 0\<rparr>" "year \<lparr>year = 2025, month = 1, day = 1, hours = 12, minutes = 0, seconds = 0, milliseconds = 0\<rparr> \<le> 9999"
    by simp_all
  note shape = filename_shape [OF d y disjI1[OF n], THEN conjunct1]
  have "filename example_runtime [(''uuid'', JStr ''u1''), (''name'', JStr ''Test Project!!''),
      (''created_at'', JStr ''2025-01-01T12:00:00Z'')]
     = Inr ''20250101_120000_test-project.md''"
    unfolding shape by (simp add: slugify_example stamp_example)
  with d n show ?thesis by simp
qed

section \<open>The title of a document\<close>

lemma getTitle_named:
  assumes "get c ''name'' = JStr n" "trim n \<noteq> []"
  shows "getTitle rt c = Inr n"
proof -
  from assms(2) have "n \<noteq> []" by (auto simp: trim_def)
  with assms show ?thesis by (simp add: getTitle_def Let_def)
qed

lemma getTitle_unnamed:
  assumes "(\<not> truthy (get c ''name'') \<or> (get c ''name'' = JStr n \<and> trim n = []))"
  shows "getTitle rt c
       = (case first_message_title rt c of
            Inl e \<Rightarrow> Inl e
          | Inr (Some title) \<Rightarrow> Inr title
          | Inr None \<Rightarrow> Inr (''Conversation '' @ template rt (get c ''uuid'')))"
  using assms by (auto simp: getTitle_def Let_def)

lemma first_message_title_text:
  assumes "get c ''chat_messages'' = JArr (JObj m # ms)" "get m ''text'' = JStr t" "trim t \<noteq> []"
  shows "first_message_title rt c = Inr (Some (first_line_title t))"
proof -
  from assms(3) have "t \<noteq> []" by (auto simp: trim_def)
  with assms show ?thesis by (simp add: first_message_title_def Let_def)
qed

lemma first_message_title_none:
  assumes "\<not> truthy (get c ''chat_messages'') \<or> get c ''chat_messages'' = JArr []
         \<or> (get c ''chat_messages'' = JArr (JObj m # ms)
              \<and> (\<not> truthy (get m ''text'') \<or> (get m ''text'' = JStr t \<and> trim t = [])))"
  shows "first_message_title rt c = Inr None"
  using assms by (auto simp: first_message_title_def Let_def)

text \<open>
  C9, as the code has it. The title is the name when the name is not blank (it has a character
  that \<open>trim\<close> keeps); otherwise, when the text of the first message is not blank, the trimmed
  first line of that text, cut to 50 characters and followed by three dots when it is longer;
  otherwise \<open>Conversation\<close> followed by the \<open>uuid\<close>. The document starts with the title as
  its top-level heading.
\<close>

theorem title_rule:
  "(get c ''name'' = JStr n \<and> trim n \<noteq> [] \<longrightarrow> getTitle rt c = Inr n)
   \<and> ((\<not> truthy (get c ''name'') \<or> (get c ''name'' = JStr n \<and> trim n = []))
        \<and> get c ''chat_messages'' = JArr (JObj m # ms) \<and> get m ''text'' = JStr t
        \<and> trim t \<noteq> []
      \<longrightarrow> getTitle rt c
          = Inr (let firstLine = trim (takeWhile (\<lambda>ch. ch \<noteq> newline) t)
                 in if 50 < length firstLine then take 50 firstLine @ ''...'' else firstLine))
   \<and> ((\<not> truthy (get c ''name'') \<or> (get c ''name'' = JStr n \<and> trim n = []))
        \<and> (\<not> truthy (get c ''chat_messages'') \<or> get c ''chat_messages'' = JArr []
             \<or> (get c ''chat_messages'' = JArr (JObj m # ms)
                  \<and> (\<not> truthy (get m ''text'') \<or> (get m ''text'' = JStr t \<and> trim t = []))))
      \<longrightarrow> getTitle rt c = Inr (''Conversation '' @ template rt (get c ''uuid'')))
   \<and> (getTitle rt c = Inr title \<and> document_body rt c = Inr body
      \<longrightarrow> generate rt c = Inr (''# '' @ title @ [newline, newline] @ body))"
proof (intro conjI impI)
  assume "get c ''name'' = JStr n \<and> trim n \<noteq> []"
  then show "getTitle rt c = Inr n" by (auto intro: getTitle_named)
next
  assume a: "(\<not> truthy (get c ''name'') \<or> (get c ''name'' = JStr n \<and> trim n = []))
        \<and> get c ''chat_messages'' = JArr (JObj m # ms) \<and> get m ''text'' = JStr t
        \<and> trim t \<noteq> []"
  then have "first_message_title rt c = Inr (Some (first_line_title t))"
    by (auto intro: first_message_title_text)
  moreover from a have "(\<not> truthy (get c ''name'') \<or> (get c ''name'' = JStr n \<and> trim n = []))" by blast
  ultimately show "getTitle rt c
          = Inr (let firstLine = trim (takeWhile (\<lambda>ch. ch \<noteq> newline) t)
                 in if 50 < length firstLine then take 50 firstLine @ ''...'' else firstLine)"
    by (simp add: getTitle_unnamed first_line_title_def)
next
  assume a: "(\<not> truthy (get c ''name'') \<or> (get c ''name'' = JStr n \<and> trim n = []))
        \<and> (\<not> truthy (get c ''chat_messages'') \<or> get c ''chat_messages'' = JArr []
             \<or> (get c ''chat_messages'' = JArr (JObj m # ms)
                  \<and> (\<not> truthy (get m ''text'') \<or> (get m ''text'' = JStr t \<and> trim t = []))))"
  then have "first_message_title rt c = Inr None"
    by (intro first_message_title_none) blast
  moreover from a have "(\<not> truthy (get c ''name'') \<or> (get c ''name'' = JStr n \<and> trim n = []))" by blast
  ultimately show "getTitle rt c = Inr (''Conversation '' @ template rt (get c ''uuid''))"
    by (simp add: getTitle_unnamed)
next
  assume "getTitle rt c = Inr title \<and> document_body rt c = Inr body"
  then show "generate rt c = Inr (''# '' @ title @ [newline, newline] @ body)"
    by (simp add: generate_def)
qed

theorem title_rule_witness:
  "\<not> truthy (get [(''uuid'', JStr ''test-uuid-2''),
      (''chat_messages'', JArr [JObj [(''text'', JStr ''What is the meaning of life?'')]])] ''name'')
   \<and> getTitle example_runtime [(''uuid'', JStr ''test-uuid-2''),
      (''chat_messages'', JArr [JObj [(''text'', JStr ''What is the meaning of life?'')]])]
     = Inr ''What is the meaning of life?''
   \<and> document_body example_runtime [(''uuid'', JStr ''test-uuid-2''),
      (''chat_messages'', JArr [JObj [(''text'', JStr ''What is the meaning of life?'')]])] = Inr []
   \<and> generate example_runtime [(''uuid'', JStr ''test-uuid-2''),
      (''chat_messages'', JArr [JObj [(''text'', JStr ''What is the meaning of life?'')]])]
     = Inr (''# What is the meaning of life?'' @ [newline, newline])"
proof -
  have n: "\<not> truthy (get [(''uuid'', JStr ''test-uuid-2''),
      (''chat_messages'', JArr [JObj [(''text'', JStr ''What is the meaning of life?'')]])] ''name'')"
    by (simp add: get_def)
  have m: "get [(''uuid'', JStr ''test-uuid-2''),
      (''chat_messages'', JArr [JObj [(''text'', JStr ''What is the meaning of life?'')]])] ''chat_messages''
      = JArr (JObj [(''text'', JStr ''What is the meaning of life?'')] # [])"
    by (simp add: get_def)
  have t: "get [(''text'', JStr ''What is the meaning of life?'')] ''text''
      = JStr ''What is the meaning of life?''"
    by (simp add: get_def)
  have tr: "trim ''What is the meaning of life?'' = ''What is the meaning of life?''"
    by (simp add: trim_def is_space_def)
  have b: "document_body example_runtime [(''uuid'', JStr ''test-uuid-2''),
      (''chat_messages'', JArr [JObj [(''text'', JStr ''What is the meaning of life?'')]])] = Inr []"
    by (simp add: example_runtime_def)
  have line: "takeWhile (\<lambda>ch. ch \<noteq> newline) ''What is the meaning of life?''
      = ''What is the meaning of life?''"
    by (simp add: newline_def)
  note rule = title_rule [of "[(''uuid'', JStr ''test-uuid-2''),
      (''chat_messages'', JArr [JObj [(''text'', JStr ''What is the meaning of life?'')]])]"
      "[]" example_runtime "[(''text'', JStr ''What is the meaning of life?'')]" "[]"
      "''What is the meaning of life?''" "''What is the meaning of life?''" "[]"]
  have tne: "trim ''What is the meaning of life?'' \<noteq> []"
    by (simp add: tr)
  have "getTitle example_runtime [(''uuid'', JStr ''test-uuid-2''),
      (''chat_messages'', JArr [JObj [(''text'', JStr ''What is the meaning of life?'')]])]
     = Inr (let firstLine = trim (takeWhile (\<lambda>ch. ch \<noteq> newline) ''What is the meaning of life?'')
            in if 50 < length firstLine then take 50 firstLine @ ''...'' else firstLine)"
    by (rule rule[THEN conjunct2, THEN conjunct1, rule_format]) (intro conjI disjI1 n m t tne)
  then have g: "getTitle example_runtime [(''uuid'', JStr ''test-uuid-2''),
      (''chat_messages'', JArr [JObj [(''text'', JStr ''What is the meaning of life?'')]])]
     = Inr ''What is the meaning of life?''"
    by (simp only: line tr Let_def) simp
  have "generate example_runtime [(''uuid'', JStr ''test-uuid-2''),
      (''chat_messages'', JArr [JObj [(''text'', JStr ''What is the meaning of life?'')]])]
     = Inr (''# '' @ ''What is the meaning of life?'' @ [newline, newline] @ [])"
    by (rule rule[THEN conjunct2, THEN conjunct2, THEN conjunct2, rule_format])
      (intro conjI g b)
  then have h: "generate example_runtime [(''uuid'', JStr ''test-uuid-2''),
      (''chat_messages'', JArr [JObj [(''text'', JStr ''What is the meaning of life?'')]])]
     = Inr (''# What is the meaning of life?'' @ [newline, newline])"
    by simp
  from n g b h show ?thesis by (intro conjI)
qed

text \<open>
  C9 as stated fails for a name that is not empty but blank: the title is then not the name.
\<close>

theorem title_rule_counterexample:
  "get [(''uuid'', JStr ''u1''), (''name'', JStr ''  '')] ''name'' = JStr ''  ''
   \<and> ''  '' \<noteq> []
   \<and> getTitle example_runtime [(''uuid'', JStr ''u1''), (''name'', JStr ''  '')]
     = Inr ''Conversation u1''"
  by (simp add: getTitle_def first_message_title_def get_def trim_def is_space_def template_def
      Let_def)

end
